theory Spec2Isabelle
  imports Main
begin

section \<open>The Zendesk source: a read-only extraction into chunks\<close>

text \<open>
  The development embeds \<^verbatim>\<open>backend/app/platform/sources/zendesk.py\<close>: the class
  \<^verbatim>\<open>ZendeskSource\<close> with its authenticated GET, its four paginated extractors
  and the orchestrating generator \<^verbatim>\<open>generate_chunks\<close>.
  Python names that start with an underscore lose it, since an Isabelle name starts with a
  letter: \<^verbatim>\<open>_get_with_auth\<close> is \<open>get_with_auth\<close>.
\<close>

subsection \<open>Python values\<close>

text \<open>
  The values that \<^verbatim>\<open>response.json()\<close> decodes and that the source passes around:
  \<^verbatim>\<open>None\<close>, booleans, integers, strings, lists and dictionaries with string keys.
  A dictionary is an association list in insertion order, read with \<open>map_of\<close>.
  Numbers are integers (the identifiers of the API are JSON integers) and strings are
  ASCII; a JSON number with a fraction or an exponent is outside the model.
\<close>

datatype pyval =
    PNone
  | PBool bool
  | PInt int
  | PStr string
  | PList "pyval list"
  | PDict "(string \<times> pyval) list"

text \<open>Truth value testing, as \<^verbatim>\<open>while url:\<close> and \<^verbatim>\<open>x or None\<close> use it.\<close>

fun truthy :: "pyval \<Rightarrow> bool" where
  "truthy PNone = False"
| "truthy (PBool b) = b"
| "truthy (PInt i) = (i \<noteq> 0)"
| "truthy (PStr s) = (s \<noteq> [])"
| "truthy (PList xs) = (xs \<noteq> [])"
| "truthy (PDict kvs) = (kvs \<noteq> [])"

text \<open>\<^verbatim>\<open>a or b\<close>\<close>

definition py_or :: "pyval \<Rightarrow> pyval \<Rightarrow> pyval" where
  "py_or a b = (if truthy a then a else b)"

text \<open>\<^verbatim>\<open>d.get(k, default)\<close> on a dictionary; \<^verbatim>\<open>d.get(k)\<close> has the default \<^verbatim>\<open>None\<close>.\<close>

definition dict_get :: "(string \<times> pyval) list \<Rightarrow> string \<Rightarrow> pyval \<Rightarrow> pyval" where
  "dict_get d k dflt = (case map_of d k of None \<Rightarrow> dflt | Some v \<Rightarrow> v)"

subsection \<open>\<^verbatim>\<open>str\<close> and \<^verbatim>\<open>repr\<close>\<close>

definition digit_char :: "nat \<Rightarrow> char" where
  "digit_char d = ''0123456789abcdef'' ! d"

function str_nat :: "nat \<Rightarrow> string" where
  "str_nat n = (if n < 10 then [digit_char n] else str_nat (n div 10) @ [digit_char (n mod 10)])"
  by pat_completeness auto
termination
  by (relation "measure (\<lambda>n. n)") auto

definition str_int :: "int \<Rightarrow> string" where
  "str_int i = (if i < 0 then CHR ''-'' # str_nat (nat (- i)) else str_nat (nat i))"

text \<open>
  \<^verbatim>\<open>repr\<close> of a string: single quotes, unless the string holds a single quote and no
  double quote; the quote and the backslash are escaped, tab, newline and carriage return
  are written with their letters, the other control characters as \<^verbatim>\<open>\xhh\<close>.
\<close>

definition repr_quote :: "string \<Rightarrow> char" where
  "repr_quote s = (if CHR 0x27 \<in> set s \<and> CHR 0x22 \<notin> set s then CHR 0x22 else CHR 0x27)"

definition repr_char :: "char \<Rightarrow> char \<Rightarrow> string" where
  "repr_char q c =
     (if c = q \<or> c = CHR 0x5C then [CHR 0x5C, c]
      else if c = CHR 0x09 then [CHR 0x5C, CHR ''t'']
      else if c = CHR 0x0A then [CHR 0x5C, CHR ''n'']
      else if c = CHR 0x0D then [CHR 0x5C, CHR ''r'']
      else if (of_char c :: nat) < 32 \<or> c = CHR 0x7F
        then [CHR 0x5C, CHR ''x'', digit_char (of_char c div 16), digit_char (of_char c mod 16)]
      else [c])"

definition repr_str :: "string \<Rightarrow> string" where
  "repr_str s = (let q = repr_quote s in q # concat (map (repr_char q) s) @ [q])"

fun join :: "string \<Rightarrow> string list \<Rightarrow> string" where
  "join sep [] = []"
| "join sep [x] = x"
| "join sep (x # y # ys) = x @ sep @ join sep (y # ys)"

fun py_repr :: "pyval \<Rightarrow> string" where
  "py_repr PNone = ''None''"
| "py_repr (PBool b) = (if b then ''True'' else ''False'')"
| "py_repr (PInt i) = str_int i"
| "py_repr (PStr s) = repr_str s"
| "py_repr (PList xs) = ''['' @ join '', '' (map py_repr xs) @ '']''"
| "py_repr (PDict kvs) =
     ''{'' @ join '', '' (map (\<lambda>kv. repr_str (fst kv) @ '': '' @ py_repr (snd kv)) kvs) @ ''}''"

text \<open>\<^verbatim>\<open>str(x)\<close>: a string is itself, every other value is its \<^verbatim>\<open>repr\<close>.\<close>

definition py_str :: "pyval \<Rightarrow> string" where
  "py_str v = (case v of PStr s \<Rightarrow> s | _ \<Rightarrow> py_repr v)"

subsection \<open>Errors\<close>

text \<open>
  The exceptions a run can raise. \<open>HTTPStatusError\<close> carries the status code,
  \<open>KeyError\<close> the missing key.
\<close>

datatype error =
    HTTPStatusError nat
  | TransportError
  | JSONDecodeError
  | AttributeError
  | TypeError
  | KeyError string

subsection \<open>Chunks\<close>

text \<open>
  Modelled from the spec: the chunk classes of \<^verbatim>\<open>app.platform.chunks.zendesk\<close> and
  their base \<^verbatim>\<open>BaseChunk\<close> are not among the sources. The spec treats them as plain
  data contracts, so a chunk is its class together with the keyword arguments it was
  constructed with: the three arguments every constructor call passes
  (\<open>source_name\<close>, \<open>entity_id\<close>, \<open>archived\<close>) and, in \<open>kwargs\<close>, the others in the
  order of the call. \<open>entity_id\<close> is always the result of \<^verbatim>\<open>str\<close>, hence a string.
\<close>

datatype chunk_class =
    ZendeskOrganizationChunk
  | ZendeskUserChunk
  | ZendeskTicketChunk
  | ZendeskCommentChunk

record chunk =
  cls :: chunk_class
  source_name :: string
  entity_id :: string
  kwargs :: "(string \<times> pyval) list"
  archived :: bool

definition kwarg :: "string \<Rightarrow> chunk \<Rightarrow> pyval option" where
  "kwarg k c = map_of (kwargs c) k"

text \<open>
  \<^verbatim>\<open>rec["id"]\<close>: \<^verbatim>\<open>KeyError\<close> on a dictionary without the key, \<^verbatim>\<open>TypeError\<close> on every
  value that is not a dictionary (a list or a string takes integer indices only, the
  others are not subscriptable).
\<close>

definition subscript :: "pyval \<Rightarrow> string \<Rightarrow> error + pyval" where
  "subscript v k =
     (case v of
        PDict d \<Rightarrow> (case map_of d k of None \<Rightarrow> Inl (KeyError k) | Some x \<Rightarrow> Inr x)
      | _ \<Rightarrow> Inl TypeError)"

text \<open>
  The four constructor calls. The arguments are evaluated in the order written, so
  \<^verbatim>\<open>rec["id"]\<close> is the first expression that can raise; once it has succeeded the
  record is a dictionary and no \<^verbatim>\<open>get\<close> raises.
\<close>

definition organization_chunk :: "pyval \<Rightarrow> error + chunk" where
  "organization_chunk org =
     (case subscript org ''id'' of
        Inl e \<Rightarrow> Inl e
      | Inr ident \<Rightarrow>
          (case org of
             PDict d \<Rightarrow>
               Inr \<lparr> cls = ZendeskOrganizationChunk,
                     source_name = ''zendesk'',
                     entity_id = py_str ident,
                     kwargs =
                       [(''name'', dict_get d ''name'' PNone),
                        (''domain_names'', dict_get d ''domain_names'' (PList [])),
                        (''created_at'', dict_get d ''created_at'' PNone),
                        (''updated_at'', dict_get d ''updated_at'' PNone),
                        (''details'', dict_get d ''details'' PNone),
                        (''notes'', dict_get d ''notes'' PNone),
                        (''group_id'', dict_get d ''group_id'' PNone),
                        (''shared_tickets'', dict_get d ''shared_tickets'' (PBool False)),
                        (''shared_comments'', dict_get d ''shared_comments'' (PBool False)),
                        (''external_id'', dict_get d ''external_id'' PNone)],
                     archived = False \<rparr>
           | _ \<Rightarrow> Inl TypeError))"

definition user_chunk :: "pyval \<Rightarrow> error + chunk" where
  "user_chunk user =
     (case subscript user ''id'' of
        Inl e \<Rightarrow> Inl e
      | Inr ident \<Rightarrow>
          (case user of
             PDict d \<Rightarrow>
               Inr \<lparr> cls = ZendeskUserChunk,
                     source_name = ''zendesk'',
                     entity_id = py_str ident,
                     kwargs =
                       [(''name'', dict_get d ''name'' PNone),
                        (''email'', dict_get d ''email'' PNone),
                        (''role'', dict_get d ''role'' PNone),
                        (''time_zone'', dict_get d ''time_zone'' PNone),
                        (''locale'', dict_get d ''locale'' PNone),
                        (''created_at'', dict_get d ''created_at'' PNone),
                        (''updated_at'', dict_get d ''updated_at'' PNone),
                        (''suspended'', dict_get d ''suspended'' (PBool False))],
                     archived = False \<rparr>
           | _ \<Rightarrow> Inl TypeError))"

text \<open>\<^verbatim>\<open>str(rec.get(k, "")) or None\<close>, the expression of the foreign keys.\<close>

definition str_or_none :: "(string \<times> pyval) list \<Rightarrow> string \<Rightarrow> pyval" where
  "str_or_none d k = py_or (PStr (py_str (dict_get d k (PStr [])))) PNone"

definition ticket_chunk :: "pyval \<Rightarrow> error + chunk" where
  "ticket_chunk ticket =
     (case subscript ticket ''id'' of
        Inl e \<Rightarrow> Inl e
      | Inr ident \<Rightarrow>
          (case ticket of
             PDict d \<Rightarrow>
               Inr \<lparr> cls = ZendeskTicketChunk,
                     source_name = ''zendesk'',
                     entity_id = py_str ident,
                     kwargs =
                       [(''subject'', dict_get d ''subject'' PNone),
                        (''description'', dict_get d ''description'' PNone),
                        (''type'', dict_get d ''type'' PNone),
                        (''priority'', dict_get d ''priority'' PNone),
                        (''status'', dict_get d ''status'' PNone),
                        (''tags'', dict_get d ''tags'' (PList [])),
                        (''requester_id'', str_or_none d ''requester_id''),
                        (''assignee_id'', str_or_none d ''assignee_id''),
                        (''organization_id'', str_or_none d ''organization_id''),
                        (''group_id'', str_or_none d ''group_id''),
                        (''created_at'', dict_get d ''created_at'' PNone),
                        (''updated_at'', dict_get d ''updated_at'' PNone),
                        (''due_at'', dict_get d ''due_at'' PNone),
                        (''via'', dict_get d ''via'' PNone),
                        (''custom_fields'', dict_get d ''custom_fields'' (PList []))],
                     archived = False \<rparr>
           | _ \<Rightarrow> Inl TypeError))"

definition comment_chunk :: "string \<Rightarrow> pyval \<Rightarrow> error + chunk" where
  "comment_chunk ticket_id comment =
     (case subscript comment ''id'' of
        Inl e \<Rightarrow> Inl e
      | Inr ident \<Rightarrow>
          (case comment of
             PDict d \<Rightarrow>
               Inr \<lparr> cls = ZendeskCommentChunk,
                     source_name = ''zendesk'',
                     entity_id = py_str ident,
                     kwargs =
                       [(''ticket_id'', PStr (py_str (PStr ticket_id))),
                        (''author_id'', str_or_none d ''author_id''),
                        (''plain_body'', dict_get d ''plain_body'' PNone),
                        (''html_body'', dict_get d ''html_body'' PNone),
                        (''public'', dict_get d ''public'' (PBool False)),
                        (''created_at'', dict_get d ''created_at'' PNone),
                        (''attachments'', dict_get d ''attachments'' (PList []))],
                     archived = False \<rparr>
           | _ \<Rightarrow> Inl TypeError))"

subsection \<open>The source instance and the authenticated GET\<close>

record zendesk_source =
  access_token :: string

definition create :: "string \<Rightarrow> zendesk_source" where
  "create token = \<lparr> access_token = token \<rparr>"

text \<open>
  The remote side is the sequence of its replies: the \<open>k\<close>-th reply answers the
  \<open>k\<close>-th GET of the run, whatever made the server answer so. A reply is a status code
  with the body as decoded JSON (\<open>None\<close> when the body is not JSON), or no reply at all
  (the connection failed).
\<close>

datatype reply = Reply nat "pyval option" | No_reply

text \<open>
  What a run does, in order: the GET requests it sends (URL and headers) and the chunks
  it yields.
\<close>

datatype event = Get string "(string \<times> string) list" | Yield chunk

text \<open>
  \<^verbatim>\<open>_get_with_auth\<close>: the request sent, and what the call gives on the reply.
  \<^verbatim>\<open>raise_for_status\<close> is httpx's: it raises \<^verbatim>\<open>HTTPStatusError\<close> unless the status
  is 2xx.
\<close>

definition get_with_auth :: "zendesk_source \<Rightarrow> string \<Rightarrow> reply \<Rightarrow> event \<times> (error + pyval)" where
  "get_with_auth self url r =
     (let headers = [(''Authorization'', ''Bearer '' @ access_token self)] in
      (Get url headers,
       case r of
         No_reply \<Rightarrow> Inl TransportError
       | Reply status body \<Rightarrow>
           if 200 \<le> status \<and> status \<le> 299
           then (case body of None \<Rightarrow> Inl JSONDecodeError | Some data \<Rightarrow> Inr data)
           else Inl (HTTPStatusError status)))"

subsection \<open>The paginated extractors\<close>

text \<open>
  \<^verbatim>\<open>for x in v\<close>: the elements of a list, the keys of a dictionary, the characters of a
  string; \<^verbatim>\<open>TypeError\<close> on a value that is not iterable.
\<close>

definition iterate :: "pyval \<Rightarrow> error + pyval list" where
  "iterate v =
     (case v of
        PList xs \<Rightarrow> Inr xs
      | PDict kvs \<Rightarrow> Inr (map (\<lambda>kv. PStr (fst kv)) kvs)
      | PStr s \<Rightarrow> Inr (map (\<lambda>c. PStr [c]) s)
      | _ \<Rightarrow> Inl TypeError)"

text \<open>
  The four extractors are the same loop, word for word, up to the first URL, the name of
  the record array in the page and the constructor call:
  \<^verbatim>\<open>
    url = <first URL>
    while url:
        data = await self._get_with_auth(client, url)
        for rec in data.get(<key>, []):
            yield <constructor call on rec>
        url = data.get("next_page")
  \<close>
\<close>

record extractor =
  first_url :: string
  records_key :: string
  make_chunk :: "pyval \<Rightarrow> error + chunk"

definition organizations :: extractor where
  "organizations =
     \<lparr> first_url = ''https://your_subdomain.zendesk.com/api/v2/organizations.json'',
       records_key = ''organizations'',
       make_chunk = organization_chunk \<rparr>"

definition users :: extractor where
  "users =
     \<lparr> first_url = ''https://your_subdomain.zendesk.com/api/v2/users.json'',
       records_key = ''users'',
       make_chunk = user_chunk \<rparr>"

definition tickets :: extractor where
  "tickets =
     \<lparr> first_url = ''https://your_subdomain.zendesk.com/api/v2/tickets.json'',
       records_key = ''tickets'',
       make_chunk = ticket_chunk \<rparr>"

definition comments :: "string \<Rightarrow> extractor" where
  "comments ticket_id =
     \<lparr> first_url =
         ''https://your_subdomain.zendesk.com/api/v2/tickets/'' @ ticket_id @ ''/comments.json'',
       records_key = ''comments'',
       make_chunk = comment_chunk ticket_id \<rparr>"

text \<open>
  A generator is suspended either at the loop test, with the value of \<^verbatim>\<open>url\<close>, or inside
  the \<^verbatim>\<open>for\<close>, with the records still to come and the page \<^verbatim>\<open>data\<close>.
\<close>

datatype position = Loop pyval | Items "pyval list" "(string \<times> pyval) list"

text \<open>
  Lines 79 and 80 of a loop: the GET, then \<^verbatim>\<open>data.get(key, [])\<close> and the start of the
  iteration, giving the records of the page and \<^verbatim>\<open>data\<close>. \<^verbatim>\<open>data.get\<close> raises \<^verbatim>\<open>AttributeError\<close> when the body is not a dictionary.
\<close>

definition open_page ::
  "extractor \<Rightarrow> zendesk_source \<Rightarrow> string \<Rightarrow> reply \<Rightarrow>
     event \<times> (error + pyval list \<times> (string \<times> pyval) list)" where
  "open_page ex self url r =
     (case get_with_auth self url r of
        (ev, Inl e) \<Rightarrow> (ev, Inl e)
      | (ev, Inr data) \<Rightarrow>
          (case data of
             PDict d \<Rightarrow>
               (case iterate (dict_get d (records_key ex) (PList [])) of
                  Inl e \<Rightarrow> (ev, Inl e)
                | Inr items \<Rightarrow> (ev, Inr (items, d)))
           | _ \<Rightarrow> (ev, Inl AttributeError)))"

text \<open>
  Resuming a generator runs it to its next \<^verbatim>\<open>yield\<close>, to its end, to an exception, or
  until it waits for a reply that the sequence does not hold (\<open>Awaiting\<close>, with the URL
  of the request). The result carries the requests sent on the way and the replies not
  yet used. A URL that is not a string makes \<^verbatim>\<open>client.get\<close> raise \<^verbatim>\<open>TypeError\<close>.
\<close>

datatype resumed = Yielded chunk position | Stopped | Raised error | Awaiting string

function resume ::
  "extractor \<Rightarrow> zendesk_source \<Rightarrow> position \<Rightarrow> reply list \<Rightarrow> event list \<times> resumed \<times> reply list" where
  "resume ex self (Items (r # rs) data) replies =
     (case make_chunk ex r of
        Inl e \<Rightarrow> ([], Raised e, replies)
      | Inr c \<Rightarrow> ([], Yielded c (Items rs data), replies))"
| "resume ex self (Items [] data) replies =
     resume ex self (Loop (dict_get data ''next_page'' PNone)) replies"
| "resume ex self (Loop url) replies =
     (if \<not> truthy url then ([], Stopped, replies)
      else
        (case url of
           PStr u \<Rightarrow>
             (case replies of
                [] \<Rightarrow> ([], Awaiting u, [])
              | r # rest \<Rightarrow>
                  (case open_page ex self u r of
                     (ev, Inl e) \<Rightarrow> ([ev], Raised e, rest)
                   | (ev, Inr (items, data)) \<Rightarrow>
                       (case resume ex self (Items items data) rest of
                          (es, res) \<Rightarrow> (ev # es, res))))
         | _ \<Rightarrow> ([], Raised TypeError, replies)))"
  by pat_completeness auto
termination
  by (relation "measure (\<lambda>(ex, self, pos, replies).
        2 * length replies + (case pos of Loop _ \<Rightarrow> 0 | Items _ _ \<Rightarrow> 1))") auto

text \<open>
  A resumed generator that yields has moved on: it has used a reply, or it stands later in
  the same page. This is what makes the loops below total.
\<close>

fun pos_size :: "position \<Rightarrow> nat" where
  "pos_size (Loop url) = 0"
| "pos_size (Items rs data) = Suc (length rs)"

lemma resume_progress:
  "resume ex self pos replies = (es, Yielded c pos', rest) \<Longrightarrow>
     length rest < length replies \<or> (rest = replies \<and> pos_size pos' < pos_size pos)"
proof (induction ex self pos replies arbitrary: es rule: resume.induct)
  case (1 ex self r rs data replies)
  then show ?case by (auto split: sum.splits)
next
  case (2 ex self data replies)
  then show ?case by auto
next
  case (3 ex self url replies)
  then show ?case
    by (auto split: if_splits pyval.splits list.splits prod.splits sum.splits) fastforce+
qed

lemma resume_suffix:
  "resume ex self pos replies = (es, res, rest) \<Longrightarrow> \<exists>used. replies = used @ rest"
proof (induction ex self pos replies arbitrary: es rule: resume.induct)
  case (1 ex self r rs data replies)
  then show ?case by (auto split: sum.splits)
next
  case (2 ex self data replies)
  then show ?case by auto
next
  case (3 ex self url replies)
  then show ?case
    by (fastforce split: if_splits pyval.splits list.splits prod.splits sum.splits)
qed

text \<open>
  How a run stands when the replies given to it are used up or it has ended: it returned,
  it raised, or it waits for the reply to a request (\<open>Pending\<close>, with the URL).
\<close>

datatype outcome = Returned | Failed error | Pending string

definition prepend :: "event list \<Rightarrow> event list \<times> 'a \<Rightarrow> event list \<times> 'a" where
  "prepend es r = (es @ fst r, snd r)"

text \<open>
  \<^verbatim>\<open>async for chunk in <generator>: yield chunk\<close>: the generator is resumed until it
  ends, and every chunk it yields is yielded on.
\<close>

function drain ::
  "extractor \<Rightarrow> zendesk_source \<Rightarrow> position \<Rightarrow> reply list \<Rightarrow>
     event list \<times> outcome \<times> reply list" where
  "drain ex self pos replies =
     (case resume ex self pos replies of
        (es, Yielded c pos', rest) \<Rightarrow> prepend (es @ [Yield c]) (drain ex self pos' rest)
      | (es, Stopped, rest) \<Rightarrow> (es, Returned, rest)
      | (es, Raised e, rest) \<Rightarrow> (es, Failed e, rest)
      | (es, Awaiting u, rest) \<Rightarrow> (es, Pending u, rest))"
  by pat_completeness auto
termination
  by (relation "measures [\<lambda>(ex, self, pos, replies). length replies,
        \<lambda>(ex, self, pos, replies). pos_size pos]")
    (auto dest: resume_progress [OF sym])

declare drain.simps [simp del]

text \<open>A generator starts at the loop test with its first URL.\<close>

definition start :: "extractor \<Rightarrow> position" where
  "start ex = Loop (PStr (first_url ex))"

definition generate_organization_chunks ::
  "zendesk_source \<Rightarrow> reply list \<Rightarrow> event list \<times> outcome \<times> reply list" where
  "generate_organization_chunks self replies = drain organizations self (start organizations) replies"

definition generate_user_chunks ::
  "zendesk_source \<Rightarrow> reply list \<Rightarrow> event list \<times> outcome \<times> reply list" where
  "generate_user_chunks self replies = drain users self (start users) replies"

definition generate_ticket_chunks ::
  "zendesk_source \<Rightarrow> reply list \<Rightarrow> event list \<times> outcome \<times> reply list" where
  "generate_ticket_chunks self replies = drain tickets self (start tickets) replies"

definition generate_comment_chunks ::
  "zendesk_source \<Rightarrow> string \<Rightarrow> reply list \<Rightarrow> event list \<times> outcome \<times> reply list" where
  "generate_comment_chunks self ticket_id replies =
     drain (comments ticket_id) self (start (comments ticket_id)) replies"

lemma drain_cases:
  "resume ex self pos replies = (es, Yielded c pos', rest) \<Longrightarrow>
     drain ex self pos replies = prepend (es @ [Yield c]) (drain ex self pos' rest)"
  "resume ex self pos replies = (es, Stopped, rest) \<Longrightarrow>
     drain ex self pos replies = (es, Returned, rest)"
  "resume ex self pos replies = (es, Raised e, rest) \<Longrightarrow>
     drain ex self pos replies = (es, Failed e, rest)"
  "resume ex self pos replies = (es, Awaiting u, rest) \<Longrightarrow>
     drain ex self pos replies = (es, Pending u, rest)"
  by (simp_all add: drain.simps [of ex self pos replies])

lemma drain_induct [consumes 0, case_names step]:
  assumes "\<And>ex self pos replies.
     (\<And>es c pos' rest. resume ex self pos replies = (es, Yielded c pos', rest) \<Longrightarrow>
        P ex self pos' rest) \<Longrightarrow> P ex self pos replies"
  shows "P ex self pos replies"
proof (induction ex self pos replies rule: drain.induct)
  case (1 ex self pos replies)
  show ?case
  proof (rule assms)
    fix es c pos' rest
    assume "resume ex self pos replies = (es, Yielded c pos', rest)"
    then show "P ex self pos' rest"
      using "1.IH" [of es "(Yielded c pos', rest)" "Yielded c pos'" rest c pos'] by simp
  qed
qed

lemma drain_suffix:
  "drain ex self pos replies = (es, out, rest) \<Longrightarrow> \<exists>used. replies = used @ rest"
proof (induction ex self pos replies arbitrary: es out rest rule: drain_induct)
  case (step ex self pos replies)
  obtain es0 res rest0 where r: "resume ex self pos replies = (es0, res, rest0)"
    by (cases "resume ex self pos replies") auto
  from resume_suffix [OF r] obtain used0 where u: "replies = used0 @ rest0" by blast
  show ?case
  proof (cases res)
    case (Yielded c pos')
    obtain es1 out1 rest1 where d: "drain ex self pos' rest0 = (es1, out1, rest1)"
      by (cases "drain ex self pos' rest0") auto
    from step.IH [OF r [unfolded Yielded] d] obtain used1 where "rest0 = used1 @ rest1"
      by blast
    moreover from step.prems r Yielded d have "rest = rest1"
      by (simp add: drain_cases prepend_def)
    ultimately show ?thesis using u by auto
  next
    case Stopped
    with step.prems r u show ?thesis by (auto simp: drain_cases)
  next
    case (Raised e)
    with step.prems r u show ?thesis by (auto simp: drain_cases)
  next
    case (Awaiting url)
    with step.prems r u show ?thesis by (auto simp: drain_cases)
  qed
qed

subsection \<open>The orchestrator\<close>

text \<open>
  The third loop of \<^verbatim>\<open>generate_chunks\<close>: the ticket generator is resumed for one
  ticket chunk, the chunk is yielded, the comment generator of that ticket is run to its
  end, and only then is the ticket generator resumed again. An exception of either
  generator ends the run.
\<close>

function tickets_and_comments ::
  "zendesk_source \<Rightarrow> position \<Rightarrow> reply list \<Rightarrow> event list \<times> outcome \<times> reply list" where
  "tickets_and_comments self pos replies =
     (case resume tickets self pos replies of
        (es, Yielded tc pos', rest) \<Rightarrow>
          prepend (es @ [Yield tc])
            (case generate_comment_chunks self (entity_id tc) rest of
               (es', Returned, rest') \<Rightarrow> prepend es' (tickets_and_comments self pos' rest')
             | ended \<Rightarrow> ended)
      | (es, Stopped, rest) \<Rightarrow> (es, Returned, rest)
      | (es, Raised e, rest) \<Rightarrow> (es, Failed e, rest)
      | (es, Awaiting u, rest) \<Rightarrow> (es, Pending u, rest))"
  by pat_completeness auto
termination
  by (relation "measures [\<lambda>(self, pos, replies). length replies,
        \<lambda>(self, pos, replies). pos_size pos]")
    (auto dest!: resume_progress [OF sym] drain_suffix [OF sym]
       simp: generate_comment_chunks_def)

declare tickets_and_comments.simps [simp del]

text \<open>
  \<^verbatim>\<open>generate_chunks\<close>: the organizations, then the users, then the tickets with their
  comments, all on one client, that is on one sequence of replies. The result is the
  events of the run, how it ended and the replies it left unused.
\<close>

definition generate_chunks ::
  "zendesk_source \<Rightarrow> reply list \<Rightarrow> event list \<times> outcome \<times> reply list" where
  "generate_chunks self replies =
     (case generate_organization_chunks self replies of
        (es, Returned, rest) \<Rightarrow>
          prepend es
            (case generate_user_chunks self rest of
               (es', Returned, rest') \<Rightarrow>
                 prepend es' (tickets_and_comments self (start tickets) rest')
             | ended \<Rightarrow> ended)
      | ended \<Rightarrow> ended)"

text \<open>The chunks a run yields and the URLs it requests, in order.\<close>

fun chunks_of :: "event list \<Rightarrow> chunk list" where
  "chunks_of [] = []"
| "chunks_of (Yield c # es) = c # chunks_of es"
| "chunks_of (Get url headers # es) = chunks_of es"

fun requests_of :: "event list \<Rightarrow> string list" where
  "requests_of [] = []"
| "requests_of (Yield c # es) = requests_of es"
| "requests_of (Get url headers # es) = url # requests_of es"

section \<open>The chunk built from one record\<close>

lemma dict_get_absent: "map_of d k = None \<Longrightarrow> dict_get d k dflt = dflt"
  by (simp add: dict_get_def)

lemma str_or_none_absent: "map_of d k = None \<Longrightarrow> str_or_none d k = PNone"
  by (simp add: str_or_none_def dict_get_def py_str_def py_or_def)

text \<open>
  Claim C1, as the code has it. The claim says that a foreign key of a ticket
  (\<open>requester_id\<close>, \<open>assignee_id\<close>, \<open>organization_id\<close>, \<open>group_id\<close>) or the
  \<open>author_id\<close> of a comment that is absent from the record or has the value 0 becomes
  \<^verbatim>\<open>None\<close> in the chunk. For the absent key this holds: the chunk carries \<^verbatim>\<open>None\<close>,
  neither \<^verbatim>\<open>"0"\<close> nor the empty string.
\<close>

theorem foreign_key_absent_is_None:
  "(ticket_chunk (PDict d) = Inr c \<longrightarrow>
      (\<forall>k \<in> {''requester_id'', ''assignee_id'', ''organization_id'', ''group_id''}.
         map_of d k = None \<longrightarrow> kwarg k c = Some PNone)) \<and>
   (comment_chunk ticket_id (PDict d) = Inr c \<longrightarrow>
      map_of d ''author_id'' = None \<longrightarrow> kwarg ''author_id'' c = Some PNone)"
  by (auto simp: ticket_chunk_def comment_chunk_def subscript_def kwarg_def str_or_none_absent
      split: option.splits)

theorem foreign_key_absent_is_None_witness:
  "map_sum id (kwarg ''requester_id'') (ticket_chunk (PDict [(''id'', PInt 7)])) =
     Inr (Some PNone) \<and>
   map_sum id (kwarg ''group_id'') (ticket_chunk (PDict [(''id'', PInt 7)])) =
     Inr (Some PNone) \<and>
   map_sum id (kwarg ''author_id'') (comment_chunk ''7'' (PDict [(''id'', PInt 9)])) =
     Inr (Some PNone)"
proof -
  obtain c where c: "ticket_chunk (PDict [(''id'', PInt 7)]) = Inr c"
    by (simp add: ticket_chunk_def subscript_def)
  obtain c' where c': "comment_chunk ''7'' (PDict [(''id'', PInt 9)]) = Inr c'"
    by (simp add: comment_chunk_def subscript_def)
  from foreign_key_absent_is_None [of "[(''id'', PInt 7)]" c] c
  have "kwarg ''requester_id'' c = Some PNone" "kwarg ''group_id'' c = Some PNone"
    by simp_all
  moreover from foreign_key_absent_is_None [of "[(''id'', PInt 9)]" c' "''7''"] c'
  have "kwarg ''author_id'' c' = Some PNone" by simp
  ultimately show ?thesis using c c' by simp
qed

text \<open>
  For the value 0 the claim fails: \<^verbatim>\<open>str(0)\<close> is the non-empty string \<^verbatim>\<open>"0"\<close>, so
  \<^verbatim>\<open>str(0) or None\<close> is \<^verbatim>\<open>"0"\<close>. The ticket \<^verbatim>\<open>{"id": 1, "requester_id": 0}\<close> gets
  the \<open>requester_id\<close> \<^verbatim>\<open>"0"\<close>.
\<close>

theorem zero_foreign_key_counterexample:
  "map_sum id (kwarg ''requester_id'')
     (ticket_chunk (PDict [(''id'', PInt 1), (''requester_id'', PInt 0)])) =
   Inr (Some (PStr ''0''))"
  by code_simp

text \<open>
  Claim C7: a record without an optional list-valued field (\<open>domain_names\<close> of an
  organization, \<open>tags\<close> and \<open>custom_fields\<close> of a ticket, \<open>attachments\<close> of a comment)
  gives a chunk that carries the empty list for that field: the field is there, and it is
  not \<^verbatim>\<open>None\<close>.
\<close>

theorem missing_list_field_is_empty:
  "(organization_chunk (PDict d) = Inr c \<longrightarrow> map_of d ''domain_names'' = None \<longrightarrow>
      kwarg ''domain_names'' c = Some (PList [])) \<and>
   (ticket_chunk (PDict d) = Inr c \<longrightarrow>
      (\<forall>k \<in> {''tags'', ''custom_fields''}. map_of d k = None \<longrightarrow> kwarg k c = Some (PList []))) \<and>
   (comment_chunk ticket_id (PDict d) = Inr c \<longrightarrow> map_of d ''attachments'' = None \<longrightarrow>
      kwarg ''attachments'' c = Some (PList []))"
  by (auto simp: organization_chunk_def ticket_chunk_def comment_chunk_def subscript_def
        kwarg_def dict_get_absent split: option.splits)

theorem missing_list_field_is_empty_witness:
  "map_sum id (kwarg ''domain_names'') (organization_chunk (PDict [(''id'', PInt 5)])) =
     Inr (Some (PList [])) \<and>
   map_sum id (kwarg ''tags'') (ticket_chunk (PDict [(''id'', PInt 7)])) =
     Inr (Some (PList [])) \<and>
   map_sum id (kwarg ''custom_fields'') (ticket_chunk (PDict [(''id'', PInt 7)])) =
     Inr (Some (PList [])) \<and>
   map_sum id (kwarg ''attachments'') (comment_chunk ''7'' (PDict [(''id'', PInt 9)])) =
     Inr (Some (PList []))"
proof -
  obtain o1 where o1: "organization_chunk (PDict [(''id'', PInt 5)]) = Inr o1"
    by (simp add: organization_chunk_def subscript_def)
  obtain t1 where t1: "ticket_chunk (PDict [(''id'', PInt 7)]) = Inr t1"
    by (simp add: ticket_chunk_def subscript_def)
  obtain c1 where c1: "comment_chunk ''7'' (PDict [(''id'', PInt 9)]) = Inr c1"
    by (simp add: comment_chunk_def subscript_def)
  from missing_list_field_is_empty [of "[(''id'', PInt 5)]" o1] o1
  have "kwarg ''domain_names'' o1 = Some (PList [])" by simp
  moreover from missing_list_field_is_empty [of "[(''id'', PInt 7)]" t1] t1
  have "kwarg ''tags'' t1 = Some (PList [])" "kwarg ''custom_fields'' t1 = Some (PList [])"
    by simp_all
  moreover from missing_list_field_is_empty [of "[(''id'', PInt 9)]" c1 "''7''"] c1
  have "kwarg ''attachments'' c1 = Some (PList [])" by simp
  ultimately show ?thesis using o1 t1 c1 by simp
qed

section \<open>Runs: what resuming and draining a generator give\<close>

lemma chunks_of_append [simp]: "chunks_of (xs @ ys) = chunks_of xs @ chunks_of ys"
  by (induction xs rule: chunks_of.induct) auto

lemma requests_of_append [simp]: "requests_of (xs @ ys) = requests_of xs @ requests_of ys"
  by (induction xs rule: requests_of.induct) auto

lemma prepend_simps [simp]:
  "fst (prepend es r) = es @ fst r" "snd (prepend es r) = snd r"
  "prepend es (es', x) = (es @ es', x)"
  by (simp_all add: prepend_def)

definition request :: "zendesk_source \<Rightarrow> string \<Rightarrow> event" where
  "request self u = Get u [(''Authorization'', ''Bearer '' @ access_token self)]"

lemma fst_open_page: "fst (open_page ex self u r) = request self u"
  by (auto simp: open_page_def get_with_auth_def request_def Let_def
      split: sum.splits pyval.splits)

lemma resume_induct [consumes 0, case_names item no_items loop]:
  assumes "\<And>ex self r rs data replies. P ex self (Items (r # rs) data) replies"
    and "\<And>ex self data replies.
      P ex self (Loop (dict_get data ''next_page'' PNone)) replies \<Longrightarrow>
      P ex self (Items [] data) replies"
    and "\<And>ex self url replies.
      (\<And>u r rest items data. url = PStr u \<Longrightarrow> u \<noteq> [] \<Longrightarrow> replies = r # rest \<Longrightarrow>
         snd (open_page ex self u r) = Inr (items, data) \<Longrightarrow>
         P ex self (Items items data) rest) \<Longrightarrow>
      P ex self (Loop url) replies"
  shows "P ex self pos replies"
proof (induction ex self pos replies rule: resume.induct)
  case (1 ex self r rs data replies)
  show ?case by (rule assms(1))
next
  case (2 ex self data replies)
  then show ?case by (rule assms(2))
next
  case (3 ex self url replies)
  show ?case
  proof (rule assms(3))
    fix u r rest items data
    assume a: "url = PStr u" "u \<noteq> []" "replies = r # rest"
      "snd (open_page ex self u r) = Inr (items, data)"
    then have "truthy url" by simp
    moreover have "(fst (open_page ex self u r), Inr (items, data)) = open_page ex self u r"
      using a(4) by (cases "open_page ex self u r") simp
    ultimately show "P ex self (Items items data) rest"
      using "3.IH" [of u r rest "fst (open_page ex self u r)" "Inr (items, data)"
          "(items, data)" items data] a by simp
  qed
qed

lemma resume_LoopE [consumes 1, case_names stop bad_url await error page]:
  assumes "resume ex self (Loop url) replies = (es, res, rest)"
  obtains
    "\<not> truthy url" "es = []" "res = Stopped" "rest = replies"
  | "truthy url" "\<forall>u. url \<noteq> PStr u" "es = []" "res = Raised TypeError" "rest = replies"
  | u where "url = PStr u" "u \<noteq> []" "replies = []" "es = []" "res = Awaiting u" "rest = []"
  | u r e where "url = PStr u" "u \<noteq> []" "replies = r # rest"
      "snd (open_page ex self u r) = Inl e" "es = [request self u]" "res = Raised e"
  | u r rest0 items data es' where "url = PStr u" "u \<noteq> []" "replies = r # rest0"
      "snd (open_page ex self u r) = Inr (items, data)"
      "resume ex self (Items items data) rest0 = (es', res, rest)" "es = request self u # es'"
proof (cases "truthy url")
  case False
  with assms that(1) show ?thesis by simp
next
  case True
  show ?thesis
  proof (cases "\<exists>u. url = PStr u")
    case False
    with True assms that(2) show ?thesis by (cases url) auto
  next
    case True
    then obtain u where u: "url = PStr u" by blast
    with \<open>truthy url\<close> have ne: "u \<noteq> []" by simp
    show ?thesis
    proof (cases replies)
      case Nil
      with u ne assms that(3) show ?thesis by simp
    next
      case (Cons r rest0)
      obtain ev x where op: "open_page ex self u r = (ev, x)"
        by (cases "open_page ex self u r") auto
      with fst_open_page [of ex self u r] have ev: "ev = request self u" by simp
      show ?thesis
      proof (cases x)
        case (Inl e)
        with u ne Cons op ev assms that(4) [of u r e] show ?thesis by simp
      next
        case (Inr p)
        obtain items data where p: "p = (items, data)" by (cases p) auto
        obtain es' res' rest' where
          r: "resume ex self (Items items data) rest0 = (es', res', rest')"
          by (cases "resume ex self (Items items data) rest0") auto
        with u ne Cons op ev Inr p assms that(5) [of u r rest0 items data es']
        show ?thesis by simp
      qed
    qed
  qed
qed

lemma resume_no_chunks:
  "resume ex self pos replies = (es, res, rest) \<Longrightarrow> chunks_of es = []"
proof (induction ex self pos replies arbitrary: es res rest rule: resume_induct)
  case (item ex self r rs data replies)
  then show ?case by (auto split: sum.splits)
next
  case (no_items ex self data replies)
  then show ?case by auto
next
  case (loop ex self url replies)
  from loop.prems show ?case
    by (cases rule: resume_LoopE) (auto simp: request_def dest: loop.IH)
qed

lemma resume_yield_made:
  "resume ex self pos replies = (es, Yielded c pos', rest) \<Longrightarrow> \<exists>r. make_chunk ex r = Inr c"
proof (induction ex self pos replies arbitrary: es rule: resume_induct)
  case (item ex self r rs data replies)
  then show ?case by (auto split: sum.splits)
next
  case (no_items ex self data replies)
  then show ?case by auto
next
  case (loop ex self url replies)
  from loop.prems show ?case
    by (cases rule: resume_LoopE) (auto dest: loop.IH)
qed

lemma drain_chunks_made:
  "c \<in> set (chunks_of (fst (drain ex self pos replies))) \<Longrightarrow> \<exists>r. make_chunk ex r = Inr c"
proof (induction ex self pos replies rule: drain_induct)
  case (step ex self pos replies)
  obtain es res rest where r: "resume ex self pos replies = (es, res, rest)"
    by (cases "resume ex self pos replies") auto
  note nc = resume_no_chunks [OF r]
  show ?case
  proof (cases res)
    case (Yielded c' pos')
    with r have r': "resume ex self pos replies = (es, Yielded c' pos', rest)" by simp
    from step.prems have "c = c' \<or> c \<in> set (chunks_of (fst (drain ex self pos' rest)))"
      by (simp add: drain_cases(1) [OF r'] nc)
    then show ?thesis using resume_yield_made [OF r'] step.IH [OF r'] by auto
  qed (use step.prems r nc in \<open>auto simp: drain_cases\<close>)
qed

lemma tickets_and_comments_cases:
  "resume tickets self pos replies = (es, Yielded tc pos', rest) \<Longrightarrow>
   generate_comment_chunks self (entity_id tc) rest = (es', Returned, rest') \<Longrightarrow>
     tickets_and_comments self pos replies =
       prepend (es @ [Yield tc] @ es') (tickets_and_comments self pos' rest')"
  "resume tickets self pos replies = (es, Yielded tc pos', rest) \<Longrightarrow>
   generate_comment_chunks self (entity_id tc) rest = (es', out, rest') \<Longrightarrow>
   out \<noteq> Returned \<Longrightarrow>
     tickets_and_comments self pos replies = (es @ [Yield tc] @ es', out, rest')"
  "resume tickets self pos replies = (es, Stopped, rest) \<Longrightarrow>
     tickets_and_comments self pos replies = (es, Returned, rest)"
  "resume tickets self pos replies = (es, Raised e, rest) \<Longrightarrow>
     tickets_and_comments self pos replies = (es, Failed e, rest)"
  "resume tickets self pos replies = (es, Awaiting u, rest) \<Longrightarrow>
     tickets_and_comments self pos replies = (es, Pending u, rest)"
  by (auto simp: tickets_and_comments.simps [of self pos replies] prepend_def
      split: outcome.splits)

lemma tickets_and_comments_induct [consumes 0, case_names step]:
  assumes "\<And>self pos replies.
     (\<And>es tc pos' rest es' rest'.
        resume tickets self pos replies = (es, Yielded tc pos', rest) \<Longrightarrow>
        generate_comment_chunks self (entity_id tc) rest = (es', Returned, rest') \<Longrightarrow>
        P self pos' rest') \<Longrightarrow> P self pos replies"
  shows "P self pos replies"
proof (induction self pos replies rule: tickets_and_comments.induct)
  case (1 self pos replies)
  show ?case
  proof (rule assms)
    fix es tc pos' rest es' rest'
    assume "resume tickets self pos replies = (es, Yielded tc pos', rest)"
      "generate_comment_chunks self (entity_id tc) rest = (es', Returned, rest')"
    then show "P self pos' rest'"
      using "1.IH" [of es "(Yielded tc pos', rest)" "Yielded tc pos'" rest tc pos'
          es' "(Returned, rest')" Returned rest'] by simp
  qed
qed

text \<open>The ticket loop in groups: each ticket chunk with the comment chunks after it.\<close>

lemma tickets_and_comments_groups:
  "\<exists>groups.
     chunks_of (fst (tickets_and_comments self pos replies)) =
       concat (map (\<lambda>(t, cs). t # cs) groups) \<and>
     (\<forall>(t, cs) \<in> set groups.
        (\<exists>r. ticket_chunk r = Inr t) \<and>
        (\<exists>rs. cs = chunks_of (fst (generate_comment_chunks self (entity_id t) rs))))"
proof (induction self pos replies rule: tickets_and_comments_induct)
  case (step self pos replies)
  obtain es res rest where r: "resume tickets self pos replies = (es, res, rest)"
    by (cases "resume tickets self pos replies") auto
  note nc = resume_no_chunks [OF r]
  show ?case
  proof (cases res)
    case (Yielded tc pos')
    with r have r': "resume tickets self pos replies = (es, Yielded tc pos', rest)" by simp
    from resume_yield_made [OF r'] have made: "\<exists>r. ticket_chunk r = Inr tc"
      by (simp add: tickets_def)
    obtain es' out rest' where
      g: "generate_comment_chunks self (entity_id tc) rest = (es', out, rest')"
      by (cases "generate_comment_chunks self (entity_id tc) rest") auto
    then have cs: "chunks_of es' = chunks_of (fst (generate_comment_chunks self (entity_id tc) rest))"
      by simp
    show ?thesis
    proof (cases "out = Returned")
      case True
      with g have g': "generate_comment_chunks self (entity_id tc) rest = (es', Returned, rest')"
        by simp
      from step.IH [OF r' g'] obtain groups where
        gr: "chunks_of (fst (tickets_and_comments self pos' rest')) =
               concat (map (\<lambda>(t, cs). t # cs) groups)"
          "\<forall>(t, cs) \<in> set groups.
             (\<exists>r. ticket_chunk r = Inr t) \<and>
             (\<exists>rs. cs = chunks_of (fst (generate_comment_chunks self (entity_id t) rs)))"
        by blast
      have "chunks_of (fst (tickets_and_comments self pos replies)) =
          concat (map (\<lambda>(t, cs). t # cs) ((tc, chunks_of es') # groups))"
        by (simp add: tickets_and_comments_cases(1) [OF r' g'] nc gr(1))
      moreover have "\<forall>(t, cs) \<in> set ((tc, chunks_of es') # groups).
             (\<exists>r. ticket_chunk r = Inr t) \<and>
             (\<exists>rs. cs = chunks_of (fst (generate_comment_chunks self (entity_id t) rs)))"
        using gr(2) made cs by auto
      ultimately show ?thesis by blast
    next
      case False
      have "chunks_of (fst (tickets_and_comments self pos replies)) =
          concat (map (\<lambda>(t, cs). t # cs) [(tc, chunks_of es')])"
        by (simp add: tickets_and_comments_cases(2) [OF r' g False] nc)
      moreover have "\<forall>(t, cs) \<in> set [(tc, chunks_of es')].
             (\<exists>r. ticket_chunk r = Inr t) \<and>
             (\<exists>rs. cs = chunks_of (fst (generate_comment_chunks self (entity_id t) rs)))"
        using made cs by auto
      ultimately show ?thesis by blast
    qed
  next
    case Stopped
    with r nc have "chunks_of (fst (tickets_and_comments self pos replies)) =
        concat (map (\<lambda>(t, cs). t # cs) [])"
      by (simp add: tickets_and_comments_cases)
    then show ?thesis by (intro exI [of _ "[]"]) simp
  next
    case (Raised e)
    with r nc have "chunks_of (fst (tickets_and_comments self pos replies)) =
        concat (map (\<lambda>(t, cs). t # cs) [])"
      by (simp add: tickets_and_comments_cases)
    then show ?thesis by (intro exI [of _ "[]"]) simp
  next
    case (Awaiting u)
    with r nc have "chunks_of (fst (tickets_and_comments self pos replies)) =
        concat (map (\<lambda>(t, cs). t # cs) [])"
      by (simp add: tickets_and_comments_cases)
    then show ?thesis by (intro exI [of _ "[]"]) simp
  qed
qed


lemma organization_chunk_made:
  assumes "organization_chunk r = Inr c"
  shows "cls c = ZendeskOrganizationChunk" "source_name c = ''zendesk''" "archived c = False"
    "\<exists>ident. subscript r ''id'' = Inr ident \<and> entity_id c = py_str ident"
  using assms by (auto simp: organization_chunk_def split: sum.splits pyval.splits)

lemma user_chunk_made:
  assumes "user_chunk r = Inr c"
  shows "cls c = ZendeskUserChunk" "source_name c = ''zendesk''" "archived c = False"
    "\<exists>ident. subscript r ''id'' = Inr ident \<and> entity_id c = py_str ident"
  using assms by (auto simp: user_chunk_def split: sum.splits pyval.splits)

lemma ticket_chunk_made:
  assumes "ticket_chunk r = Inr c"
  shows "cls c = ZendeskTicketChunk" "source_name c = ''zendesk''" "archived c = False"
    "\<exists>ident. subscript r ''id'' = Inr ident \<and> entity_id c = py_str ident"
  using assms by (auto simp: ticket_chunk_def split: sum.splits pyval.splits)

lemma comment_chunk_made:
  assumes "comment_chunk ticket_id r = Inr c"
  shows "cls c = ZendeskCommentChunk" "source_name c = ''zendesk''" "archived c = False"
    "\<exists>ident. subscript r ''id'' = Inr ident \<and> entity_id c = py_str ident"
    "kwarg ''ticket_id'' c = Some (PStr ticket_id)"
  using assms
  by (auto simp: comment_chunk_def kwarg_def py_str_def split: sum.splits pyval.splits)

lemma organizations_chunks:
  "c \<in> set (chunks_of (fst (generate_organization_chunks self replies))) \<Longrightarrow>
     \<exists>r. organization_chunk r = Inr c"
  unfolding generate_organization_chunks_def
  by (drule drain_chunks_made) (simp add: organizations_def)

lemma users_chunks:
  "c \<in> set (chunks_of (fst (generate_user_chunks self replies))) \<Longrightarrow>
     \<exists>r. user_chunk r = Inr c"
  unfolding generate_user_chunks_def
  by (drule drain_chunks_made) (simp add: users_def)

lemma comments_chunks:
  "c \<in> set (chunks_of (fst (generate_comment_chunks self ticket_id replies))) \<Longrightarrow>
     \<exists>r. comment_chunk ticket_id r = Inr c"
  unfolding generate_comment_chunks_def
  by (drule drain_chunks_made) (simp add: comments_def)

text \<open>The chunks of a whole run, phase by phase.\<close>

definition users_part :: "zendesk_source \<Rightarrow> reply list \<Rightarrow> chunk list" where
  "users_part self replies =
     (case generate_organization_chunks self replies of
        (es, Returned, rest) \<Rightarrow> chunks_of (fst (generate_user_chunks self rest))
      | _ \<Rightarrow> [])"

lemma generate_chunks_phases:
  "\<exists>groups.
     chunks_of (fst (generate_chunks self replies)) =
       chunks_of (fst (generate_organization_chunks self replies)) @ users_part self replies @
       concat (map (\<lambda>(t, cs). t # cs) groups) \<and>
     (\<forall>(t, cs) \<in> set groups.
        (\<exists>r. ticket_chunk r = Inr t) \<and>
        (\<exists>rs. cs = chunks_of (fst (generate_comment_chunks self (entity_id t) rs))))"
proof -
  obtain es out rest where o: "generate_organization_chunks self replies = (es, out, rest)"
    by (cases "generate_organization_chunks self replies") auto
  obtain es' out' rest' where u: "generate_user_chunks self rest = (es', out', rest')"
    by (cases "generate_user_chunks self rest") auto
  show ?thesis
  proof (cases "out = Returned \<and> out' = Returned")
    case True
    from tickets_and_comments_groups [of self "start tickets" rest'] obtain groups where
      "chunks_of (fst (tickets_and_comments self (start tickets) rest')) =
         concat (map (\<lambda>(t, cs). t # cs) groups)"
      "\<forall>(t, cs) \<in> set groups.
         (\<exists>r. ticket_chunk r = Inr t) \<and>
         (\<exists>rs. cs = chunks_of (fst (generate_comment_chunks self (entity_id t) rs)))"
      by blast
    with True o u show ?thesis
      by (intro exI [of _ groups]) (simp add: generate_chunks_def users_part_def)
  next
    case False
    with o u show ?thesis
      by (intro exI [of _ "[]"])
        (auto simp: generate_chunks_def users_part_def split: outcome.splits)
  qed
qed

lemma users_part_chunks: "c \<in> set (users_part self replies) \<Longrightarrow> \<exists>r. user_chunk r = Inr c"
  by (auto simp: users_part_def split: prod.splits outcome.splits dest: users_chunks)

section \<open>The order and the tags of the chunks of a run\<close>


definition page :: "(string \<times> pyval) list \<Rightarrow> reply" where
  "page d = Reply 200 (Some (PDict d))"


text \<open>
  A run on two pages of organizations, one of users, one of tickets with the tickets 42
  and 43, and the comment pages of both: three comments of ticket 42 on two pages, none of
  ticket 43.
\<close>

definition sample_replies :: "reply list" where
  "sample_replies =
     [page [(''organizations'', PList [PDict [(''id'', PInt 1)]]), (''next_page'', PStr ''o2'')],
      page [(''organizations'', PList [PDict [(''id'', PInt 2)]]), (''next_page'', PNone)],
      page [(''users'', PList [PDict [(''id'', PInt 3)]])],
      page [(''tickets'', PList [PDict [(''id'', PInt 42)], PDict [(''id'', PInt 43)]])],
      page [(''comments'', PList [PDict [(''id'', PInt 7)]]), (''next_page'', PStr ''c2'')],
      page [(''comments'', PList [PDict [(''id'', PInt 8)], PDict [(''id'', PInt 9)]])],
      page [(''comments'', PList [])]]"

text \<open>
  A scan of a chunk list that remembers the \<open>entity_id\<close> of the last ticket chunk and
  checks every comment chunk against it.
\<close>

fun follows :: "string option \<Rightarrow> chunk list \<Rightarrow> bool" where
  "follows cur [] = True"
| "follows cur (x # xs) =
     (if cls x = ZendeskTicketChunk then follows (Some (entity_id x)) xs
      else if cls x = ZendeskCommentChunk
        then (case cur of None \<Rightarrow> True | Some tid \<Rightarrow> kwarg ''ticket_id'' x = Some (PStr tid)) \<and>
          follows cur xs
      else follows cur xs)"

lemma follows_others:
  "\<forall>x \<in> set xs. cls x \<noteq> ZendeskTicketChunk \<and> cls x \<noteq> ZendeskCommentChunk \<Longrightarrow>
     follows cur (xs @ ys) = follows cur ys"
  by (induction xs) auto

lemma follows_comments:
  "\<forall>x \<in> set cs. cls x = ZendeskCommentChunk \<and> kwarg ''ticket_id'' x = Some (PStr tid) \<Longrightarrow>
     follows (Some tid) (cs @ ys) = follows (Some tid) ys"
  by (induction cs) auto

lemma follows_groups:
  "\<forall>(t, cs) \<in> set groups. cls t = ZendeskTicketChunk \<and>
      (\<forall>x \<in> set cs. cls x = ZendeskCommentChunk \<and>
         kwarg ''ticket_id'' x = Some (PStr (entity_id t))) \<Longrightarrow>
     follows cur (concat (map (\<lambda>(t, cs). t # cs) groups))"
proof (induction groups arbitrary: cur)
  case Nil
  then show ?case by simp
next
  case (Cons g groups)
  obtain t cs where g: "g = (t, cs)" by (cases g) auto
  with Cons.prems have t: "cls t = ZendeskTicketChunk"
    and cs: "\<forall>x \<in> set cs. cls x = ZendeskCommentChunk \<and>
         kwarg ''ticket_id'' x = Some (PStr (entity_id t))"
    by auto
  from Cons.prems have "follows (Some (entity_id t)) (concat (map (\<lambda>(t, cs). t # cs) groups))"
    by (intro Cons.IH) auto
  with t g show ?case by (simp add: follows_comments [OF cs])
qed

lemma follows_suffix: "follows cur (xs @ ys) \<Longrightarrow> \<exists>cur'. follows cur' ys"
  by (induction xs arbitrary: cur) (auto split: if_splits)

lemma follows_between:
  "follows (Some tid) (between @ c # after) \<Longrightarrow>
   \<forall>x \<in> set between. cls x \<noteq> ZendeskTicketChunk \<Longrightarrow> cls c = ZendeskCommentChunk \<Longrightarrow>
     kwarg ''ticket_id'' c = Some (PStr tid)"
  by (induction between) (auto split: if_splits)

lemma generate_chunks_follows:
  "follows None (chunks_of (fst (generate_chunks self replies)))"
proof -
  from generate_chunks_phases [of self replies] obtain groups where
    eq: "chunks_of (fst (generate_chunks self replies)) =
       (chunks_of (fst (generate_organization_chunks self replies)) @ users_part self replies) @
       concat (map (\<lambda>(t, cs). t # cs) groups)"
    and gr: "\<forall>(t, cs) \<in> set groups.
        (\<exists>r. ticket_chunk r = Inr t) \<and>
        (\<exists>rs. cs = chunks_of (fst (generate_comment_chunks self (entity_id t) rs)))"
    by auto
  have "\<forall>x \<in> set (chunks_of (fst (generate_organization_chunks self replies)) @
        users_part self replies).
      cls x \<noteq> ZendeskTicketChunk \<and> cls x \<noteq> ZendeskCommentChunk"
    by (auto dest!: organizations_chunks users_part_chunks
        dest: organization_chunk_made(1) user_chunk_made(1))
  moreover have "\<forall>(t, cs) \<in> set groups. cls t = ZendeskTicketChunk \<and>
      (\<forall>x \<in> set cs. cls x = ZendeskCommentChunk \<and>
         kwarg ''ticket_id'' x = Some (PStr (entity_id t)))"
    using gr by (fastforce dest: ticket_chunk_made(1) comments_chunks
        comment_chunk_made(1) comment_chunk_made(5))
  ultimately show ?thesis
    unfolding eq by (simp only: follows_others follows_groups)
qed

text \<open>
  Claim C3: in the chunks of \<^verbatim>\<open>generate_chunks\<close>, a comment chunk that comes after a
  ticket chunk with no other ticket chunk between the two has as \<open>ticket_id\<close> the
  \<open>entity_id\<close> of that ticket chunk.
\<close>

theorem comment_carries_ticket_id:
  assumes "chunks_of (fst (generate_chunks self replies)) = before @ t # between @ c # after"
    and "cls t = ZendeskTicketChunk"
    and "\<forall>x \<in> set between. cls x \<noteq> ZendeskTicketChunk"
    and "cls c = ZendeskCommentChunk"
  shows "kwarg ''ticket_id'' c = Some (PStr (entity_id t))"
proof -
  from generate_chunks_follows [of self replies] assms(1)
  have "follows None (before @ t # between @ c # after)" by simp
  then obtain cur where "follows cur (t # between @ c # after)"
    by (blast dest: follows_suffix)
  with assms(2) have "follows (Some (entity_id t)) (between @ c # after)" by simp
  then show ?thesis using assms(3,4) by (rule follows_between)
qed

theorem comment_carries_ticket_id_witness:
  "cls (chunks_of (fst (generate_chunks (create ''token'') sample_replies)) ! 3) =
     ZendeskTicketChunk \<and>
   entity_id (chunks_of (fst (generate_chunks (create ''token'') sample_replies)) ! 3) = ''42'' \<and>
   cls (chunks_of (fst (generate_chunks (create ''token'') sample_replies)) ! 6) =
     ZendeskCommentChunk \<and>
   kwarg ''ticket_id'' (chunks_of (fst (generate_chunks (create ''token'') sample_replies)) ! 6) =
     Some (PStr ''42'')"
proof -
  let ?cs = "chunks_of (fst (generate_chunks (create ''token'') sample_replies))"
  have split: "?cs = take 3 ?cs @ (?cs ! 3) # [?cs ! 4, ?cs ! 5] @ (?cs ! 6) # [?cs ! 7]"
    by code_simp
  have t: "cls (?cs ! 3) = ZendeskTicketChunk" by code_simp
  have b: "\<forall>x \<in> set [?cs ! 4, ?cs ! 5]. cls x \<noteq> ZendeskTicketChunk" by code_simp
  have c: "cls (?cs ! 6) = ZendeskCommentChunk" by code_simp
  have e: "entity_id (?cs ! 3) = ''42''" by code_simp
  from comment_carries_ticket_id [OF split t b c] e t c show ?thesis by simp
qed

section \<open>Pages and records that are not as expected\<close>

lemma open_page_ok:
  "200 \<le> status \<Longrightarrow> status \<le> 299 \<Longrightarrow>
   iterate (dict_get body (records_key ex) (PList [])) = Inr items \<Longrightarrow>
     open_page ex self url (Reply status (Some (PDict body))) = (request self url, Inr (items, body))"
  by (simp add: open_page_def get_with_auth_def request_def)

lemma resume_page:
  assumes "url \<noteq> []" "200 \<le> status" "status \<le> 299"
    and "iterate (dict_get body (records_key ex) (PList [])) = Inr items"
  shows "resume ex self (Loop (PStr url)) (Reply status (Some (PDict body)) # rest) =
    prepend [request self url] (resume ex self (Items items body) rest)"
  using assms by (simp add: open_page_ok prepend_def split: prod.splits)

lemma drain_prepend:
  assumes "resume ex self pos replies = prepend es (resume ex self pos' replies')"
  shows "drain ex self pos replies = prepend es (drain ex self pos' replies')"
proof -
  obtain es' res rest where r: "resume ex self pos' replies' = (es', res, rest)"
    by (cases "resume ex self pos' replies'") auto
  with assms have r': "resume ex self pos replies = (es @ es', res, rest)" by simp
  show ?thesis
    by (cases res)
      (simp_all add: drain.simps [of ex self pos replies] drain.simps [of ex self pos' replies']
        r r' prepend_def)
qed

lemma drain_stop: "\<not> truthy url \<Longrightarrow> drain ex self (Loop url) replies = ([], Returned, replies)"
  by (rule drain_cases) simp

text \<open>
  Claim C5: a fetched page whose body has no record array for the extractor (no
  \<open>organizations\<close>, \<open>users\<close>, \<open>tickets\<close> or \<open>comments\<close> key) gives no chunk and raises
  nothing: the generator goes on at the loop test with the page's \<open>next_page\<close>, and it
  ends there when the page has none.
\<close>

theorem page_without_records_is_empty:
  assumes "map_of body (records_key ex) = None"
    and "url \<noteq> []" and "200 \<le> status" and "status \<le> 299"
  shows "resume ex self (Loop (PStr url)) (Reply status (Some (PDict body)) # rest) =
      prepend [request self url] (resume ex self (Loop (dict_get body ''next_page'' PNone)) rest) \<and>
    drain ex self (Loop (PStr url)) (Reply status (Some (PDict body)) # rest) =
      prepend [request self url] (drain ex self (Loop (dict_get body ''next_page'' PNone)) rest) \<and>
    (\<not> truthy (dict_get body ''next_page'' PNone) \<longrightarrow>
       drain ex self (Loop (PStr url)) (Reply status (Some (PDict body)) # rest) =
         ([request self url], Returned, rest))"
proof -
  from assms(1) have "iterate (dict_get body (records_key ex) (PList [])) = Inr []"
    by (simp add: dict_get_absent iterate_def)
  from resume_page [OF assms(2-4) this]
  have r: "resume ex self (Loop (PStr url)) (Reply status (Some (PDict body)) # rest) =
      prepend [request self url] (resume ex self (Loop (dict_get body ''next_page'' PNone)) rest)"
    by simp
  note d = drain_prepend [OF r]
  from d have "drain ex self (Loop (PStr url)) (Reply status (Some (PDict body)) # rest) =
         ([request self url], Returned, rest)"
    if "\<not> truthy (dict_get body ''next_page'' PNone)"
    using that by (simp add: drain_stop)
  with r d show ?thesis by blast
qed

theorem page_without_records_is_empty_witness:
  "generate_ticket_chunks (create ''token'')
     [page [(''count'', PInt 0), (''next_page'', PStr ''t2'')],
      page [(''tickets'', PList [PDict [(''id'', PInt 5)]])]] =
   prepend [request (create ''token'') (first_url tickets)]
     (drain tickets (create ''token'') (Loop (PStr ''t2''))
        [page [(''tickets'', PList [PDict [(''id'', PInt 5)]])]]) \<and>
   requests_of (fst (generate_ticket_chunks (create ''token'')
     [page [(''count'', PInt 0), (''next_page'', PStr ''t2'')],
      page [(''tickets'', PList [PDict [(''id'', PInt 5)]])]])) = [first_url tickets, ''t2''] \<and>
   map entity_id (chunks_of (fst (generate_ticket_chunks (create ''token'')
     [page [(''count'', PInt 0), (''next_page'', PStr ''t2'')],
      page [(''tickets'', PList [PDict [(''id'', PInt 5)]])]]))) = [''5''] \<and>
   snd (generate_ticket_chunks (create ''token'')
     [page [(''count'', PInt 0), (''next_page'', PStr ''t2'')],
      page [(''tickets'', PList [PDict [(''id'', PInt 5)]])]]) = (Returned, [])"
proof (intro conjI)
  have "map_of [(''count'', PInt 0), (''next_page'', PStr ''t2'')] (records_key tickets) = None"
    by (simp add: tickets_def)
  moreover have "first_url tickets \<noteq> []" by (simp add: tickets_def)
  ultimately show "generate_ticket_chunks (create ''token'')
     [page [(''count'', PInt 0), (''next_page'', PStr ''t2'')],
      page [(''tickets'', PList [PDict [(''id'', PInt 5)]])]] =
   prepend [request (create ''token'') (first_url tickets)]
     (drain tickets (create ''token'') (Loop (PStr ''t2''))
        [page [(''tickets'', PList [PDict [(''id'', PInt 5)]])]])"
    using page_without_records_is_empty [of "[(''count'', PInt 0), (''next_page'', PStr ''t2'')]"
        tickets "first_url tickets" 200 "create ''token''"
        "[page [(''tickets'', PList [PDict [(''id'', PInt 5)]])]]"]
    by (simp add: generate_ticket_chunks_def start_def page_def dict_get_def)
qed code_simp+

text \<open>
  Claim C10: a record (a JSON object) without the key \<open>id\<close> makes the constructor call of
  each of the four extractors raise \<^verbatim>\<open>KeyError\<close> for \<open>id\<close>. The generator raises at that
  record: the records after it in the page (\<open>later\<close>) are not looked at, no chunk is built for it, no
  reply is used, and the ticket loop of \<^verbatim>\<open>generate_chunks\<close> ends with the same error.
\<close>

theorem record_without_id_raises:
  assumes "map_of d ''id'' = None"
    and "ex \<in> {organizations, users, tickets, comments ticket_id}"
  shows "make_chunk ex (PDict d) = Inl (KeyError ''id'') \<and>
    resume ex self (Items (PDict d # later) data) replies = ([], Raised (KeyError ''id''), replies) \<and>
    drain ex self (Items (PDict d # later) data) replies = ([], Failed (KeyError ''id''), replies) \<and>
    tickets_and_comments self (Items (PDict d # later) data) replies =
      ([], Failed (KeyError ''id''), replies)"
proof -
  from assms have m: "make_chunk ex (PDict d) = Inl (KeyError ''id'')"
    by (auto simp: organizations_def users_def tickets_def comments_def organization_chunk_def
        user_chunk_def ticket_chunk_def comment_chunk_def subscript_def)
  then have r: "resume ex self (Items (PDict d # later) data) replies =
      ([], Raised (KeyError ''id''), replies)"
    by simp
  from assms(1) have "make_chunk tickets (PDict d) = Inl (KeyError ''id'')"
    by (simp add: tickets_def ticket_chunk_def subscript_def)
  then have "resume tickets self (Items (PDict d # later) data) replies =
      ([], Raised (KeyError ''id''), replies)"
    by simp
  then have "tickets_and_comments self (Items (PDict d # later) data) replies =
      ([], Failed (KeyError ''id''), replies)"
    by (rule tickets_and_comments_cases)
  with m r drain_cases(3) [OF r] show ?thesis by simp
qed

theorem record_without_id_raises_witness:
  "make_chunk users (PDict [(''name'', PStr ''Ann'')]) = Inl (KeyError ''id'') \<and>
   generate_chunks (create ''token'')
     [page [(''organizations'', PList [])],
      page [(''users'', PList [PDict [(''id'', PInt 1)], PDict [(''name'', PStr ''Ann'')],
              PDict [(''id'', PInt 3)]])],
      page [(''tickets'', PList [])]] =
   ([request (create ''token'') (first_url organizations),
     request (create ''token'') (first_url users),
     Yield (projr (user_chunk (PDict [(''id'', PInt 1)])))],
    Failed (KeyError ''id''), [page [(''tickets'', PList [])]])"
proof (intro conjI)
  show "make_chunk users (PDict [(''name'', PStr ''Ann'')]) = Inl (KeyError ''id'')"
    using record_without_id_raises [of "[(''name'', PStr ''Ann'')]" users]
    by simp
qed code_simp

section \<open>The end of a pagination walk\<close>

text \<open>Inside the last page, the generator ends without another request.\<close>

lemma resume_last_page:
  assumes "dict_get d ''next_page'' PNone = PNone"
    and "resume ex self (Items items d) replies = (es, res, rest)"
  shows "es = [] \<and> rest = replies \<and> (\<forall>u. res \<noteq> Awaiting u) \<and>
    (\<forall>c pos'. res = Yielded c pos' \<longrightarrow> (\<exists>items'. pos' = Items items' d))"
  using assms by (cases items) (auto split: sum.splits)

lemma drain_last_page:
  assumes "dict_get d ''next_page'' PNone = PNone"
  shows "\<exists>es out. drain ex self (Items items d) replies = (es, out, replies) \<and>
    (\<forall>u. out \<noteq> Pending u)"
proof (induction items)
  case Nil
  from assms have "resume ex self (Items [] d) replies = ([], Stopped, replies)" by simp
  from drain_cases(2) [OF this] show ?case by simp
next
  case (Cons r items)
  show ?case
  proof (cases "make_chunk ex r")
    case (Inl e)
    then have "resume ex self (Items (r # items) d) replies = ([], Raised e, replies)" by simp
    from drain_cases(3) [OF this] show ?thesis by simp
  next
    case (Inr c)
    then have "resume ex self (Items (r # items) d) replies =
        ([], Yielded c (Items items d), replies)" by simp
    from drain_cases(1) [OF this] Cons.IH show ?thesis by auto
  qed
qed

lemma open_page_data:
  "snd (open_page ex self u (Reply status (Some (PDict d)))) = Inr (items, data) \<Longrightarrow> data = d"
  by (auto simp: open_page_def get_with_auth_def Let_def split: if_splits sum.splits)

lemma resume_to_last_page:
  assumes "dict_get d ''next_page'' PNone = PNone"
  shows "resume ex self pos replies = (es, res, rest) \<Longrightarrow>
    replies = rs @ [Reply status (Some (PDict d))] \<Longrightarrow>
    (\<forall>u. res \<noteq> Awaiting u) \<and>
    ((\<exists>rs'. rest = rs' @ [Reply status (Some (PDict d))]) \<or>
     (rest = [] \<and> (\<forall>c pos'. res = Yielded c pos' \<longrightarrow> (\<exists>items. pos' = Items items d))))"
proof (induction ex self pos replies arbitrary: rs es res rest rule: resume_induct)
  case (item ex self r items data replies)
  then show ?case by (auto split: sum.splits)
next
  case (no_items ex self data replies)
  from no_items.prems no_items.IH [of es res rest rs] show ?case by simp
next
  case (loop ex self url replies)
  from loop.prems(1) show ?case
  proof (cases rule: resume_LoopE)
    case (error u r e)
    with loop.prems(2) show ?thesis by (cases rs) auto
  next
    case (page u r rest0 items data es')
    show ?thesis
    proof (cases rs)
      case Nil
      with page(3) loop.prems(2) have r: "r = Reply status (Some (PDict d))" and "rest0 = []"
        by simp_all
      with page(4) have "data = d" by (auto dest: open_page_data)
      with page(5) \<open>rest0 = []\<close> resume_last_page [OF assms, of ex self items "[]" es' res rest]
      show ?thesis by simp
    next
      case (Cons r' rs')
      with page(3) loop.prems(2) have "rest0 = rs' @ [Reply status (Some (PDict d))]" by simp
      from loop.IH [OF page(1,2,3,4,5) this] show ?thesis .
    qed
  qed (use loop.prems(2) in auto)
qed

lemma drain_to_last_page:
  assumes "dict_get d ''next_page'' PNone = PNone"
  shows "replies = rs @ [Reply status (Some (PDict d))] \<Longrightarrow>
    \<forall>u. fst (snd (drain ex self pos replies)) \<noteq> Pending u"
proof (induction ex self pos replies arbitrary: rs rule: drain_induct)
  case (step ex self pos replies)
  obtain es res rest where r: "resume ex self pos replies = (es, res, rest)"
    by (cases "resume ex self pos replies") auto
  note last = resume_to_last_page [OF assms r step.prems]
  show ?case
  proof (cases res)
    case (Yielded c pos')
    with r have r': "resume ex self pos replies = (es, Yielded c pos', rest)" by simp
    from last Yielded consider rs' where "rest = rs' @ [Reply status (Some (PDict d))]"
      | items where "rest = []" "pos' = Items items d"
      by auto
    then have "\<forall>u. fst (snd (drain ex self pos' rest)) \<noteq> Pending u"
    proof cases
      case 1
      from step.IH [OF r' this] show ?thesis .
    next
      case 2
      with drain_last_page [OF assms, of ex self items "[]"] show ?thesis by auto
    qed
    then show ?thesis by (simp add: drain_cases(1) [OF r'])
  next
    case Stopped
    with r show ?thesis by (simp add: drain_cases)
  next
    case (Raised e)
    with r show ?thesis by (simp add: drain_cases)
  next
    case (Awaiting u)
    with last show ?thesis by simp
  qed
qed

text \<open>
  Claim C4: when the body of a fetched page has no \<open>next_page\<close> field, or has it null,
  the pagination loop of every extractor ends after that page. Once the records of the
  page are done the loop test fails and the generator stops, with no further request; from
  any record of the page on, the rest of the walk uses no reply; and a walk whose replies
  end with such a page never waits for a further reply: it returns or raises.
\<close>

theorem pagination_ends_without_next_page:
  assumes "map_of d ''next_page'' = None \<or> map_of d ''next_page'' = Some PNone"
  shows "resume ex self (Items [] d) replies = ([], Stopped, replies) \<and>
    (\<exists>es out. drain ex self (Items items d) replies = (es, out, replies) \<and>
       (\<forall>u. out \<noteq> Pending u)) \<and>
    (\<forall>u. fst (snd (drain ex self pos (rs @ [Reply status (Some (PDict d))]))) \<noteq> Pending u)"
proof -
  from assms have d: "dict_get d ''next_page'' PNone = PNone"
    by (auto simp: dict_get_def)
  then have "resume ex self (Items [] d) replies = ([], Stopped, replies)" by simp
  with drain_last_page [OF d] drain_to_last_page [OF d refl] show ?thesis by blast
qed

theorem pagination_ends_without_next_page_witness:
  "(\<forall>u. fst (snd (generate_organization_chunks (create ''token'')
       [page [(''organizations'', PList [PDict [(''id'', PInt 1)]]), (''next_page'', PStr ''o2'')],
        page [(''organizations'', PList [PDict [(''id'', PInt 2)]]), (''next_page'', PNone)]]))
      \<noteq> Pending u) \<and>
   generate_organization_chunks (create ''token'')
       [page [(''organizations'', PList [PDict [(''id'', PInt 1)]]), (''next_page'', PStr ''o2'')],
        page [(''organizations'', PList [PDict [(''id'', PInt 2)]]), (''next_page'', PNone)],
        No_reply] =
     ([request (create ''token'') (first_url organizations),
       Yield (projr (organization_chunk (PDict [(''id'', PInt 1)]))),
       request (create ''token'') ''o2'',
       Yield (projr (organization_chunk (PDict [(''id'', PInt 2)])))],
      Returned, [No_reply])"
proof (intro conjI)
  have "map_of [(''organizations'', PList [PDict [(''id'', PInt 2)]]), (''next_page'', PNone)]
      ''next_page'' = Some PNone"
    by simp
  then show "\<forall>u. fst (snd (generate_organization_chunks (create ''token'')
       [page [(''organizations'', PList [PDict [(''id'', PInt 1)]]), (''next_page'', PStr ''o2'')],
        page [(''organizations'', PList [PDict [(''id'', PInt 2)]]), (''next_page'', PNone)]]))
      \<noteq> Pending u"
    using pagination_ends_without_next_page
      [of "[(''organizations'', PList [PDict [(''id'', PInt 2)]]), (''next_page'', PNone)]"
        organizations "create ''token''" "[]" "[]" "start organizations"
        "[page [(''organizations'', PList [PDict [(''id'', PInt 1)]]),
                (''next_page'', PStr ''o2'')]]" 200]
    by (simp add: generate_organization_chunks_def page_def)
qed code_simp

section \<open>Two runs on the same replies\<close>

text \<open>
  The access token of the instance reaches the requests only: \<open>with_token\<close> rewrites the
  requests of a run to those another instance sends.
\<close>

fun with_token :: "zendesk_source \<Rightarrow> event \<Rightarrow> event" where
  "with_token self (Get url headers) = request self url"
| "with_token self (Yield c) = Yield c"

lemma chunks_of_with_token [simp]: "chunks_of (map (with_token self) es) = chunks_of es"
  by (induction es rule: chunks_of.induct) (simp_all add: request_def)

lemma requests_of_with_token [simp]: "requests_of (map (with_token self) es) = requests_of es"
  by (induction es rule: requests_of.induct) (simp_all add: request_def)

lemma snd_open_page_token: "snd (open_page ex self u r) = snd (open_page ex self' u r)"
  by (auto simp: open_page_def get_with_auth_def Let_def
      split: reply.splits sum.splits pyval.splits option.splits)

lemma resume_token:
  "resume ex self pos replies = (es, res, rest) \<Longrightarrow>
     resume ex self' pos replies = (map (with_token self') es, res, rest)"
proof (induction ex self pos replies arbitrary: es res rest rule: resume_induct)
  case (item ex self r rs data replies)
  then show ?case by (auto split: sum.splits)
next
  case (no_items ex self data replies)
  then show ?case by simp
next
  case (loop ex self url replies)
  from loop.prems show ?case
  proof (cases rule: resume_LoopE)
    case (error u r e)
    then have "snd (open_page ex self' u r) = Inl e"
      by (simp add: snd_open_page_token [of ex self' u r self])
    with error fst_open_page [of ex self' u r] show ?thesis
      by (cases "open_page ex self' u r") (simp add: request_def)
  next
    case (page u r rest0 items data es')
    then have o: "snd (open_page ex self' u r) = Inr (items, data)"
      by (simp add: snd_open_page_token [of ex self' u r self])
    from loop.IH [OF page(1,2,3,4,5)]
    have "resume ex self' (Items items data) rest0 = (map (with_token self') es', res, rest)" .
    with page o fst_open_page [of ex self' u r] show ?thesis
      by (cases "open_page ex self' u r") (simp add: request_def)
  next
    case bad_url
    then show ?thesis by (cases url) auto
  qed auto
qed

lemma drain_token:
  "drain ex self pos replies = (es, out, rest) \<Longrightarrow>
     drain ex self' pos replies = (map (with_token self') es, out, rest)"
proof (induction ex self pos replies arbitrary: es out rest rule: drain_induct)
  case (step ex self pos replies)
  obtain es0 res rest0 where r: "resume ex self pos replies = (es0, res, rest0)"
    by (cases "resume ex self pos replies") auto
  note r' = resume_token [OF r, of self']
  show ?case
  proof (cases res)
    case (Yielded c pos')
    obtain es1 out1 rest1 where d: "drain ex self pos' rest0 = (es1, out1, rest1)"
      by (cases "drain ex self pos' rest0") auto
    from step.IH [OF r [unfolded Yielded] d]
    have "drain ex self' pos' rest0 = (map (with_token self') es1, out1, rest1)" .
    with step.prems r r' d Yielded show ?thesis by (auto simp: drain_cases)
  qed (use step.prems r r' in \<open>auto simp: drain_cases\<close>)
qed

lemma tickets_and_comments_token:
  "tickets_and_comments self pos replies = (es, out, rest) \<Longrightarrow>
     tickets_and_comments self' pos replies = (map (with_token self') es, out, rest)"
proof (induction self pos replies arbitrary: es out rest rule: tickets_and_comments_induct)
  case (step self pos replies)
  obtain es0 res rest0 where r: "resume tickets self pos replies = (es0, res, rest0)"
    by (cases "resume tickets self pos replies") auto
  note r' = resume_token [OF r, of self']
  show ?case
  proof (cases res)
    case (Yielded tc pos')
    obtain es1 out1 rest1 where
      g: "generate_comment_chunks self (entity_id tc) rest0 = (es1, out1, rest1)"
      by (cases "generate_comment_chunks self (entity_id tc) rest0") auto
    then have g': "generate_comment_chunks self' (entity_id tc) rest0 =
        (map (with_token self') es1, out1, rest1)"
      unfolding generate_comment_chunks_def by (rule drain_token)
    show ?thesis
    proof (cases "out1 = Returned")
      case True
      obtain es2 out2 rest2 where t: "tickets_and_comments self pos' rest1 = (es2, out2, rest2)"
        by (cases "tickets_and_comments self pos' rest1") auto
      from step.IH [OF r [unfolded Yielded] g [unfolded True] t]
      have "tickets_and_comments self' pos' rest1 = (map (with_token self') es2, out2, rest2)" .
      with step.prems r r' g g' t Yielded True show ?thesis
        by (auto simp: tickets_and_comments_cases(1))
    next
      case False
      with step.prems r r' g g' Yielded show ?thesis
        by (auto simp: tickets_and_comments_cases(2))
    qed
  qed (use step.prems r r' in \<open>auto simp: tickets_and_comments_cases\<close>)
qed

lemma generate_chunks_token:
  "generate_chunks self replies = (es, out, rest) \<Longrightarrow>
     generate_chunks self' replies = (map (with_token self') es, out, rest)"
proof -
  assume a: "generate_chunks self replies = (es, out, rest)"
  obtain es1 out1 rest1 where o: "generate_organization_chunks self replies = (es1, out1, rest1)"
    by (cases "generate_organization_chunks self replies") auto
  then have o': "generate_organization_chunks self' replies =
      (map (with_token self') es1, out1, rest1)"
    unfolding generate_organization_chunks_def by (rule drain_token)
  obtain es2 out2 rest2 where u: "generate_user_chunks self rest1 = (es2, out2, rest2)"
    by (cases "generate_user_chunks self rest1") auto
  then have u': "generate_user_chunks self' rest1 = (map (with_token self') es2, out2, rest2)"
    unfolding generate_user_chunks_def by (rule drain_token)
  obtain es3 out3 rest3 where
    t: "tickets_and_comments self (start tickets) rest2 = (es3, out3, rest3)"
    by (cases "tickets_and_comments self (start tickets) rest2") auto
  note t' = tickets_and_comments_token [OF t, of self']
  from a o o' u u' t t' show ?thesis
    by (auto simp: generate_chunks_def split: outcome.splits)
qed

text \<open>
  Claim C9: two runs of \<^verbatim>\<open>generate_chunks\<close> on the same sequence of replies, by whatever
  instances of the source, yield the same chunks in the same order, send their requests to
  the same URLs, end the same way and leave the same replies unused. The runs differ in the
  token of their requests at most; the chunks hold no time of the run.
\<close>

theorem generate_chunks_deterministic:
  "chunks_of (fst (generate_chunks self replies)) = chunks_of (fst (generate_chunks self' replies)) \<and>
   requests_of (fst (generate_chunks self replies)) =
     requests_of (fst (generate_chunks self' replies)) \<and>
   snd (generate_chunks self replies) = snd (generate_chunks self' replies)"
proof -
  obtain es out rest where a: "generate_chunks self replies = (es, out, rest)"
    by (cases "generate_chunks self replies") auto
  from generate_chunks_token [OF a, of self'] a show ?thesis by simp
qed

theorem generate_chunks_deterministic_witness:
  "chunks_of (fst (generate_chunks (create ''token A'') sample_replies)) =
     chunks_of (fst (generate_chunks (create ''token B'') sample_replies)) \<and>
   length (chunks_of (fst (generate_chunks (create ''token A'') sample_replies))) = 8 \<and>
   fst (generate_chunks (create ''token A'') sample_replies) \<noteq>
     fst (generate_chunks (create ''token B'') sample_replies)"
proof (intro conjI)
  show "chunks_of (fst (generate_chunks (create ''token A'') sample_replies)) =
     chunks_of (fst (generate_chunks (create ''token B'') sample_replies))"
    using generate_chunks_deterministic [of "create ''token A''" sample_replies "create ''token B''"]
    by simp
qed code_simp+

section \<open>A run and the replies that follow\<close>

lemma open_page_split: "open_page ex self u r = (request self u, snd (open_page ex self u r))"
  using fst_open_page [of ex self u r] by (cases "open_page ex self u r") simp

lemma resume_Loop_error:
  "u \<noteq> [] \<Longrightarrow> snd (open_page ex self u r) = Inl e \<Longrightarrow>
     resume ex self (Loop (PStr u)) (r # rest) = ([request self u], Raised e, rest)"
  by (subst resume.simps, subst open_page_split) simp

lemma resume_Loop_page:
  "u \<noteq> [] \<Longrightarrow> snd (open_page ex self u r) = Inr (items, data) \<Longrightarrow>
     resume ex self (Loop (PStr u)) (r # rest) =
       prepend [request self u] (resume ex self (Items items data) rest)"
  by (subst resume.simps, subst open_page_split) (simp add: prepend_def split: prod.splits)

text \<open>
  A generator that does not wait for a reply has not looked at the replies it left: with
  more replies after them it does the same.
\<close>

lemma resume_more:
  "resume ex self pos rs = (es, res, rest0) \<Longrightarrow> \<forall>u. res \<noteq> Awaiting u \<Longrightarrow>
     resume ex self pos (rs @ more_replies) = (es, res, rest0 @ more_replies)"
proof (induction ex self pos rs arbitrary: es res rest0 rule: resume_induct)
  case (item ex self r items data replies)
  then show ?case by (auto split: sum.splits)
next
  case (no_items ex self data replies)
  then show ?case by simp
next
  case (loop ex self url replies)
  from loop.prems(1) show ?case
  proof (cases rule: resume_LoopE)
    case bad_url
    then show ?thesis by (cases url) auto
  next
    case (await u)
    with loop.prems(2) show ?thesis by simp
  next
    case (error u r e)
    then show ?thesis by (simp add: resume_Loop_error del: resume.simps)
  next
    case (page u r rest1 items data es')
    from loop.IH [OF page(1,2,3,4,5) loop.prems(2)] page show ?thesis
      by (simp add: resume_Loop_page del: resume.simps)
  qed auto
qed

text \<open>
  A generator that waits for the reply to a request raises what the request raises when the
  reply comes and it is an error.
\<close>

lemma resume_awaited_error:
  assumes "\<forall>ex self u. snd (open_page ex self u r) = Inl e"
  shows "resume ex self pos rs = (es, Awaiting u, rest0) \<Longrightarrow>
     resume ex self pos (rs @ r # rest) = (es @ [request self u], Raised e, rest)"
proof (induction ex self pos rs arbitrary: es rest0 rule: resume_induct)
  case (item ex self r items data replies)
  then show ?case by (auto split: sum.splits)
next
  case (no_items ex self data replies)
  then show ?case by simp
next
  case (loop ex self url replies)
  from loop.prems(1) show ?case
  proof (cases rule: resume_LoopE)
    case (await u')
    from assms have "snd (open_page ex self u' r) = Inl e" by simp
    from resume_Loop_error [OF await(2) this] await show ?thesis
      by (simp del: resume.simps)
  next
    case (page u' r' rest1 items data es')
    from loop.IH [OF page(1,2,3,4,5)] page show ?thesis
      by (simp add: resume_Loop_page del: resume.simps)
  qed auto
qed

lemma drain_more:
  "drain ex self pos rs = (es, out, rest0) \<Longrightarrow> \<forall>u. out \<noteq> Pending u \<Longrightarrow>
     drain ex self pos (rs @ more_replies) = (es, out, rest0 @ more_replies)"
proof (induction ex self pos rs arbitrary: es out rest0 rule: drain_induct)
  case (step ex self pos replies)
  obtain es0 res rest1 where r: "resume ex self pos replies = (es0, res, rest1)"
    by (cases "resume ex self pos replies") auto
  show ?case
  proof (cases res)
    case (Yielded c pos')
    note r' = r [unfolded Yielded]
    obtain es1 out1 rest2 where d: "drain ex self pos' rest1 = (es1, out1, rest2)"
      by (cases "drain ex self pos' rest1") auto
    with step.prems(1) have eq: "es = es0 @ Yield c # es1" "out1 = out" "rest2 = rest0"
      by (simp_all add: drain_cases(1) [OF r'])
    from step.IH [OF r' d] step.prems(2) eq
    have "drain ex self pos' (rest1 @ more_replies) = (es1, out, rest0 @ more_replies)" by simp
    moreover from resume_more [OF r'] have
      "resume ex self pos (replies @ more_replies) = (es0, Yielded c pos', rest1 @ more_replies)"
      by simp
    ultimately show ?thesis using eq by (simp add: drain_cases(1))
  next
    case Stopped
    with r step.prems resume_more [OF r, of more_replies] show ?thesis
      by (auto simp: drain_cases)
  next
    case (Raised e)
    with r step.prems resume_more [OF r, of more_replies] show ?thesis
      by (auto simp: drain_cases)
  next
    case (Awaiting u)
    with r step.prems show ?thesis by (auto simp: drain_cases)
  qed
qed

lemma drain_awaited_error:
  assumes "\<forall>ex self u. snd (open_page ex self u r) = Inl e"
  shows "drain ex self pos rs = (es, Pending u, rest0) \<Longrightarrow>
     drain ex self pos (rs @ r # rest) = (es @ [request self u], Failed e, rest)"
proof (induction ex self pos rs arbitrary: es rest0 rule: drain_induct)
  case (step ex self pos replies)
  obtain es0 res rest1 where r0: "resume ex self pos replies = (es0, res, rest1)"
    by (cases "resume ex self pos replies") auto
  show ?case
  proof (cases res)
    case (Yielded c pos')
    note r' = r0 [unfolded Yielded]
    obtain es1 out1 rest2 where d: "drain ex self pos' rest1 = (es1, out1, rest2)"
      by (cases "drain ex self pos' rest1") auto
    with step.prems have eq: "es = es0 @ Yield c # es1" "out1 = Pending u"
      by (simp_all add: drain_cases(1) [OF r'])
    from step.IH [OF r' d [unfolded eq(2)]]
    have "drain ex self pos' (rest1 @ r # rest) = (es1 @ [request self u], Failed e, rest)" .
    moreover from resume_more [OF r'] have
      "resume ex self pos (replies @ r # rest) = (es0, Yielded c pos', rest1 @ r # rest)"
      by simp
    ultimately show ?thesis using eq by (simp add: drain_cases(1))
  next
    case (Awaiting u')
    with r0 step.prems have "es = es0" "u' = u" by (simp_all add: drain_cases)
    with resume_awaited_error [OF assms r0 [unfolded Awaiting], of rest] show ?thesis
      by (simp add: drain_cases)
  qed (use r0 step.prems in \<open>auto simp: drain_cases\<close>)
qed

lemma tickets_and_comments_more:
  "tickets_and_comments self pos rs = (es, out, rest0) \<Longrightarrow> \<forall>u. out \<noteq> Pending u \<Longrightarrow>
     tickets_and_comments self pos (rs @ more_replies) = (es, out, rest0 @ more_replies)"
proof (induction self pos rs arbitrary: es out rest0 rule: tickets_and_comments_induct)
  case (step self pos replies)
  obtain es0 res rest1 where r: "resume tickets self pos replies = (es0, res, rest1)"
    by (cases "resume tickets self pos replies") auto
  show ?case
  proof (cases res)
    case (Yielded tc pos')
    note r' = r [unfolded Yielded]
    from resume_more [OF r'] have rm:
      "resume tickets self pos (replies @ more_replies) =
         (es0, Yielded tc pos', rest1 @ more_replies)"
      by simp
    obtain es1 out1 rest2 where
      g: "generate_comment_chunks self (entity_id tc) rest1 = (es1, out1, rest2)"
      by (cases "generate_comment_chunks self (entity_id tc) rest1") auto
    show ?thesis
    proof (cases "out1 = Returned")
      case True
      note g' = g [unfolded True]
      from drain_more [OF g' [unfolded generate_comment_chunks_def]]
      have gm: "generate_comment_chunks self (entity_id tc) (rest1 @ more_replies) =
          (es1, Returned, rest2 @ more_replies)"
        by (simp add: generate_comment_chunks_def)
      obtain es2 out2 rest3 where t: "tickets_and_comments self pos' rest2 = (es2, out2, rest3)"
        by (cases "tickets_and_comments self pos' rest2") auto
      with step.prems(1) have eq: "es = es0 @ Yield tc # es1 @ es2" "out2 = out" "rest3 = rest0"
        by (simp_all add: tickets_and_comments_cases(1) [OF r' g'])
      from step.IH [OF r' g' t] step.prems(2) eq
      have "tickets_and_comments self pos' (rest2 @ more_replies) =
          (es2, out, rest0 @ more_replies)"
        by simp
      with eq show ?thesis by (simp add: tickets_and_comments_cases(1) [OF rm gm])
    next
      case False
      with step.prems(1) have eq: "es = es0 @ Yield tc # es1" "out1 = out" "rest2 = rest0"
        by (simp_all add: tickets_and_comments_cases(2) [OF r' g])
      from drain_more [OF g [unfolded generate_comment_chunks_def]] step.prems(2) eq
      have gm: "generate_comment_chunks self (entity_id tc) (rest1 @ more_replies) =
          (es1, out, rest0 @ more_replies)"
        by (simp add: generate_comment_chunks_def)
      from False eq have "out \<noteq> Returned" by simp
      with eq show ?thesis by (simp add: tickets_and_comments_cases(2) [OF rm gm])
    qed
  next
    case Stopped
    with r step.prems resume_more [OF r, of more_replies] show ?thesis
      by (auto simp: tickets_and_comments_cases)
  next
    case (Raised e)
    with r step.prems resume_more [OF r, of more_replies] show ?thesis
      by (auto simp: tickets_and_comments_cases)
  next
    case (Awaiting u)
    with r step.prems show ?thesis by (auto simp: tickets_and_comments_cases)
  qed
qed

lemma tickets_and_comments_awaited_error:
  assumes "\<forall>ex self u. snd (open_page ex self u r) = Inl e"
  shows "tickets_and_comments self pos rs = (es, Pending u, rest0) \<Longrightarrow>
     tickets_and_comments self pos (rs @ r # rest) = (es @ [request self u], Failed e, rest)"
proof (induction self pos rs arbitrary: es rest0 rule: tickets_and_comments_induct)
  case (step self pos replies)
  obtain es0 res rest1 where r0: "resume tickets self pos replies = (es0, res, rest1)"
    by (cases "resume tickets self pos replies") auto
  show ?case
  proof (cases res)
    case (Yielded tc pos')
    note r' = r0 [unfolded Yielded]
    from resume_more [OF r'] have rm:
      "resume tickets self pos (replies @ r # rest) = (es0, Yielded tc pos', rest1 @ r # rest)"
      by simp
    obtain es1 out1 rest2 where
      g: "generate_comment_chunks self (entity_id tc) rest1 = (es1, out1, rest2)"
      by (cases "generate_comment_chunks self (entity_id tc) rest1") auto
    show ?thesis
    proof (cases "out1 = Returned")
      case True
      note g' = g [unfolded True]
      from drain_more [OF g' [unfolded generate_comment_chunks_def]]
      have gm: "generate_comment_chunks self (entity_id tc) (rest1 @ r # rest) =
          (es1, Returned, rest2 @ r # rest)"
        by (simp add: generate_comment_chunks_def)
      obtain es2 out2 rest3 where t: "tickets_and_comments self pos' rest2 = (es2, out2, rest3)"
        by (cases "tickets_and_comments self pos' rest2") auto
      with step.prems have eq: "es = es0 @ Yield tc # es1 @ es2" "out2 = Pending u"
        by (simp_all add: tickets_and_comments_cases(1) [OF r' g'])
      from step.IH [OF r' g' t [unfolded eq(2)]]
      have "tickets_and_comments self pos' (rest2 @ r # rest) =
          (es2 @ [request self u], Failed e, rest)" .
      with eq show ?thesis by (simp add: tickets_and_comments_cases(1) [OF rm gm])
    next
      case False
      with step.prems have eq: "es = es0 @ Yield tc # es1" "out1 = Pending u"
        by (simp_all add: tickets_and_comments_cases(2) [OF r' g])
      from drain_awaited_error [OF assms g [unfolded generate_comment_chunks_def eq(2)]]
      have gm: "generate_comment_chunks self (entity_id tc) (rest1 @ r # rest) =
          (es1 @ [request self u], Failed e, rest)"
        by (simp add: generate_comment_chunks_def)
      with eq show ?thesis by (simp add: tickets_and_comments_cases(2) [OF rm gm])
    qed
  next
    case (Awaiting u')
    with r0 step.prems have "es = es0" "u' = u" by (simp_all add: tickets_and_comments_cases)
    with resume_awaited_error [OF assms r0 [unfolded Awaiting], of rest] show ?thesis
      by (simp add: tickets_and_comments_cases)
  qed (use r0 step.prems in \<open>auto simp: tickets_and_comments_cases\<close>)
qed

lemma generate_chunks_cases:
  "generate_organization_chunks self replies = (es1, out1, rest1) \<Longrightarrow> out1 \<noteq> Returned \<Longrightarrow>
     generate_chunks self replies = (es1, out1, rest1)"
  "generate_organization_chunks self replies = (es1, Returned, rest1) \<Longrightarrow>
   generate_user_chunks self rest1 = (es2, out2, rest2) \<Longrightarrow> out2 \<noteq> Returned \<Longrightarrow>
     generate_chunks self replies = (es1 @ es2, out2, rest2)"
  "generate_organization_chunks self replies = (es1, Returned, rest1) \<Longrightarrow>
   generate_user_chunks self rest1 = (es2, Returned, rest2) \<Longrightarrow>
   tickets_and_comments self (start tickets) rest2 = (es3, out3, rest3) \<Longrightarrow>
     generate_chunks self replies = (es1 @ es2 @ es3, out3, rest3)"
  by (auto simp: generate_chunks_def split: outcome.splits)

lemma generate_chunks_more:
  assumes "generate_chunks self rs = (es, out, rest0)" and "\<forall>u. out \<noteq> Pending u"
  shows "generate_chunks self (rs @ more_replies) = (es, out, rest0 @ more_replies)"
proof -
  obtain es1 out1 rest1 where o: "generate_organization_chunks self rs = (es1, out1, rest1)"
    by (cases "generate_organization_chunks self rs") auto
  show ?thesis
  proof (cases "out1 = Returned")
    case False
    with assms o have eq: "es = es1" "out = out1" "rest0 = rest1"
      by (simp_all add: generate_chunks_cases(1))
    from drain_more [OF o [unfolded generate_organization_chunks_def]] assms(2) eq
    have "generate_organization_chunks self (rs @ more_replies) = (es, out, rest0 @ more_replies)"
      by (simp add: generate_organization_chunks_def)
    with False eq show ?thesis by (simp add: generate_chunks_cases(1))
  next
    case True
    note o' = o [unfolded True]
    from drain_more [OF o' [unfolded generate_organization_chunks_def]]
    have om: "generate_organization_chunks self (rs @ more_replies) =
        (es1, Returned, rest1 @ more_replies)"
      by (simp add: generate_organization_chunks_def)
    obtain es2 out2 rest2 where u: "generate_user_chunks self rest1 = (es2, out2, rest2)"
      by (cases "generate_user_chunks self rest1") auto
    show ?thesis
    proof (cases "out2 = Returned")
      case False
      with assms o' u have eq: "es = es1 @ es2" "out = out2" "rest0 = rest2"
        by (simp_all add: generate_chunks_cases(2))
      from drain_more [OF u [unfolded generate_user_chunks_def]] assms(2) eq
      have "generate_user_chunks self (rest1 @ more_replies) = (es2, out, rest0 @ more_replies)"
        by (simp add: generate_user_chunks_def)
      with False eq om show ?thesis by (simp add: generate_chunks_cases(2))
    next
      case True
      note u' = u [unfolded True]
      from drain_more [OF u' [unfolded generate_user_chunks_def]]
      have um: "generate_user_chunks self (rest1 @ more_replies) =
          (es2, Returned, rest2 @ more_replies)"
        by (simp add: generate_user_chunks_def)
      obtain es3 out3 rest3 where
        t: "tickets_and_comments self (start tickets) rest2 = (es3, out3, rest3)"
        by (cases "tickets_and_comments self (start tickets) rest2") auto
      with assms o' u' have eq: "es = es1 @ es2 @ es3" "out = out3" "rest0 = rest3"
        by (simp_all add: generate_chunks_cases(3))
      from tickets_and_comments_more [OF t] assms(2) eq
      have "tickets_and_comments self (start tickets) (rest2 @ more_replies) =
          (es3, out, rest0 @ more_replies)"
        by simp
      with eq show ?thesis by (simp add: generate_chunks_cases(3) [OF om um])
    qed
  qed
qed

lemma generate_chunks_awaited_error:
  assumes "\<forall>ex self u. snd (open_page ex self u r) = Inl e"
    and "generate_chunks self rs = (es, Pending u, rest0)"
  shows "generate_chunks self (rs @ r # rest) = (es @ [request self u], Failed e, rest)"
proof -
  obtain es1 out1 rest1 where o: "generate_organization_chunks self rs = (es1, out1, rest1)"
    by (cases "generate_organization_chunks self rs") auto
  show ?thesis
  proof (cases "out1 = Returned")
    case False
    with assms(2) o have eq: "es = es1" "out1 = Pending u"
      by (simp_all add: generate_chunks_cases(1))
    from drain_awaited_error [OF assms(1) o [unfolded generate_organization_chunks_def eq(2)]]
    have "generate_organization_chunks self (rs @ r # rest) =
        (es1 @ [request self u], Failed e, rest)"
      by (simp add: generate_organization_chunks_def)
    with eq show ?thesis by (simp add: generate_chunks_cases(1))
  next
    case True
    note o' = o [unfolded True]
    from drain_more [OF o' [unfolded generate_organization_chunks_def]]
    have om: "generate_organization_chunks self (rs @ r # rest) =
        (es1, Returned, rest1 @ r # rest)"
      by (simp add: generate_organization_chunks_def)
    obtain es2 out2 rest2 where us: "generate_user_chunks self rest1 = (es2, out2, rest2)"
      by (cases "generate_user_chunks self rest1") auto
    show ?thesis
    proof (cases "out2 = Returned")
      case False
      with assms(2) o' us have eq: "es = es1 @ es2" "out2 = Pending u"
        by (simp_all add: generate_chunks_cases(2))
      from drain_awaited_error [OF assms(1) us [unfolded generate_user_chunks_def eq(2)]]
      have "generate_user_chunks self (rest1 @ r # rest) =
          (es2 @ [request self u], Failed e, rest)"
        by (simp add: generate_user_chunks_def)
      from generate_chunks_cases(2) [OF om this] eq show ?thesis by simp
    next
      case True
      note us' = us [unfolded True]
      from drain_more [OF us' [unfolded generate_user_chunks_def]]
      have um: "generate_user_chunks self (rest1 @ r # rest) =
          (es2, Returned, rest2 @ r # rest)"
        by (simp add: generate_user_chunks_def)
      obtain es3 out3 rest3 where
        t: "tickets_and_comments self (start tickets) rest2 = (es3, out3, rest3)"
        by (cases "tickets_and_comments self (start tickets) rest2") auto
      with assms(2) o' us' have eq: "es = es1 @ es2 @ es3" "out3 = Pending u"
        by (simp_all add: generate_chunks_cases(3))
      from tickets_and_comments_awaited_error [OF assms(1) t [unfolded eq(2)]]
      have "tickets_and_comments self (start tickets) (rest2 @ r # rest) =
          (es3 @ [request self u], Failed e, rest)" .
      from generate_chunks_cases(3) [OF om um this] eq show ?thesis by simp
    qed
  qed
qed

lemma open_page_http_error:
  "\<not> (200 \<le> status \<and> status \<le> 299) \<Longrightarrow>
     snd (open_page ex self u (Reply status body)) = Inl (HTTPStatusError status)"
  by (auto simp: open_page_def get_with_auth_def)

text \<open>
  Claim C6: a GET that is answered with a status outside 2xx ends the run there. The run
  that has used the replies \<open>rs\<close> and waits for the reply to its request for \<open>u\<close> raises
  the HTTP status error when that reply has such a status: its events are those up to
  the request, unchanged, then the request, and nothing after it: no chunk, no request for
  a later page or a later kind of record, and the replies that would follow stay unused.
  A run that has ended before does not get the reply at all.
\<close>

theorem http_error_aborts:
  assumes "\<not> (200 \<le> status \<and> status \<le> 299)"
  shows "(generate_chunks self rs = (es, Pending u, rest0) \<longrightarrow>
      generate_chunks self (rs @ Reply status body # rest) =
        (es @ [request self u], Failed (HTTPStatusError status), rest)) \<and>
    (generate_chunks self rs = (es, out, rest0) \<longrightarrow> (\<forall>u. out \<noteq> Pending u) \<longrightarrow>
      generate_chunks self (rs @ Reply status body # rest) =
        (es, out, rest0 @ Reply status body # rest))"
proof -
  from assms have "\<forall>ex self u.
      snd (open_page ex self u (Reply status body)) = Inl (HTTPStatusError status)"
    by (simp add: open_page_http_error)
  from generate_chunks_awaited_error [OF this] generate_chunks_more show ?thesis by blast
qed

definition sample_before_error :: "reply list" where
  "sample_before_error =
     [page [(''organizations'', PList [PDict [(''id'', PInt 1)]])],
      page [(''users'', PList [PDict [(''id'', PInt 3)]])],
      page [(''tickets'', PList [PDict [(''id'', PInt 42)], PDict [(''id'', PInt 43)]]),
            (''next_page'', PStr ''t2'')]]"

theorem http_error_aborts_witness:
  "generate_chunks (create ''token'')
     (sample_before_error @ Reply 403 None # [page [(''comments'', PList [])]]) =
     (fst (generate_chunks (create ''token'') sample_before_error) @
        [request (create ''token'')
           ''https://your_subdomain.zendesk.com/api/v2/tickets/42/comments.json''],
      Failed (HTTPStatusError 403), [page [(''comments'', PList [])]]) \<and>
   map (\<lambda>c. (cls c, entity_id c))
     (chunks_of (fst (generate_chunks (create ''token'') sample_before_error))) =
     [(ZendeskOrganizationChunk, ''1''), (ZendeskUserChunk, ''3''), (ZendeskTicketChunk, ''42'')]"
proof (intro conjI)
  have "snd (generate_chunks (create ''token'') sample_before_error) =
      (Pending ''https://your_subdomain.zendesk.com/api/v2/tickets/42/comments.json'', [])"
    by code_simp
  then have "generate_chunks (create ''token'') sample_before_error =
      (fst (generate_chunks (create ''token'') sample_before_error),
       Pending ''https://your_subdomain.zendesk.com/api/v2/tickets/42/comments.json'', [])"
    by (cases "generate_chunks (create ''token'') sample_before_error") simp
  moreover have "\<not> (200 \<le> (403::nat) \<and> (403::nat) \<le> 299)" by simp
  ultimately show "generate_chunks (create ''token'')
     (sample_before_error @ Reply 403 None # [page [(''comments'', PList [])]]) =
     (fst (generate_chunks (create ''token'') sample_before_error) @
        [request (create ''token'')
           ''https://your_subdomain.zendesk.com/api/v2/tickets/42/comments.json''],
      Failed (HTTPStatusError 403), [page [(''comments'', PList [])]])"
    using http_error_aborts [of 403 "create ''token''" sample_before_error
        "fst (generate_chunks (create ''token'') sample_before_error)"
        "''https://your_subdomain.zendesk.com/api/v2/tickets/42/comments.json''" "[]"
        None "[page [(''comments'', PList [])]]"]
    by blast
qed code_simp

section \<open>The order of the chunks, as the specification words it\<close>

text \<open>
  The specification describes the output of \<^verbatim>\<open>generate_chunks\<close> without generators: all
  organizations, then all users, then, for each ticket in fetch order, the ticket chunk
  immediately followed by all of that ticket's comment chunks before moving to the next
  ticket. The definitions below follow these words, as plain nested loops over the pages
  and their records; they are compared with the generators of the source further down.

  What is observed of a run here is its chunks, how it ended and the replies it left.
\<close>

definition observed ::
  "event list \<times> outcome \<times> reply list \<Rightarrow> chunk list \<times> outcome \<times> reply list" where
  "observed run = (chunks_of (fst run), snd run)"

definition followed_by :: "chunk list \<Rightarrow> chunk list \<times> 'a \<Rightarrow> chunk list \<times> 'a" where
  "followed_by cs r = (cs @ fst r, snd r)"

text \<open>
  For each ticket record of a page, in the order of the page: the ticket chunk, then all
  the chunks of the comment extractor for that ticket, on the replies that follow at that
  point, and only then the next record. A record or a comment walk that fails ends it.
\<close>

fun each_ticket ::
  "zendesk_source \<Rightarrow> pyval list \<Rightarrow> reply list \<Rightarrow> chunk list \<times> outcome \<times> reply list" where
  "each_ticket self [] replies = ([], Returned, replies)"
| "each_ticket self (r # records) replies =
     (case ticket_chunk r of
        Inl e \<Rightarrow> ([], Failed e, replies)
      | Inr t \<Rightarrow>
          followed_by [t]
            (case observed (generate_comment_chunks self (entity_id t) replies) of
               (comment_chunks, Returned, rest) \<Rightarrow>
                 followed_by comment_chunks (each_ticket self records rest)
             | ended \<Rightarrow> ended))"

lemma each_ticket_suffix:
  "each_ticket self records replies = (cs, out, rest) \<Longrightarrow> \<exists>used. replies = used @ rest"
proof (induction records arbitrary: replies cs out rest)
  case Nil
  then show ?case by simp
next
  case (Cons r records)
  show ?case
  proof (cases "ticket_chunk r")
    case (Inl e)
    with Cons.prems show ?thesis by simp
  next
    case (Inr t)
    obtain es1 out1 rest1 where
      g: "generate_comment_chunks self (entity_id t) replies = (es1, out1, rest1)"
      by (cases "generate_comment_chunks self (entity_id t) replies") auto
    from drain_suffix [OF g [unfolded generate_comment_chunks_def]]
    obtain used1 where u1: "replies = used1 @ rest1" by blast
    show ?thesis
    proof (cases "out1 = Returned")
      case True
      obtain cs2 out2 rest2 where e: "each_ticket self records rest1 = (cs2, out2, rest2)"
        by (cases "each_ticket self records rest1") auto
      from Cons.IH [OF e] obtain used2 where "rest1 = used2 @ rest2" by blast
      moreover from Cons.prems Inr g True e have "rest = rest2"
        by (simp add: observed_def followed_by_def)
      ultimately show ?thesis using u1 by auto
    next
      case False
      with Cons.prems Inr g have "rest = rest1"
        by (cases out1) (simp_all add: observed_def followed_by_def)
      with u1 show ?thesis by blast
    qed
  qed
qed

text \<open>
  The ticket pages in fetch order: the page at \<open>url\<close> is fetched and its tickets are gone
  through as above, then the page that its \<open>next_page\<close> names, until a page names none.
\<close>

function ticket_pages ::
  "zendesk_source \<Rightarrow> pyval \<Rightarrow> reply list \<Rightarrow> chunk list \<times> outcome \<times> reply list" where
  "ticket_pages self url replies =
     (if \<not> truthy url then ([], Returned, replies)
      else
        (case url of
           PStr u \<Rightarrow>
             (case replies of
                [] \<Rightarrow> ([], Pending u, [])
              | r # rest \<Rightarrow>
                  (case snd (open_page tickets self u r) of
                     Inl e \<Rightarrow> ([], Failed e, rest)
                   | Inr (records, data) \<Rightarrow>
                       (case each_ticket self records rest of
                          (cs, Returned, rest') \<Rightarrow>
                            followed_by cs
                              (ticket_pages self (dict_get data ''next_page'' PNone) rest')
                        | ended \<Rightarrow> ended)))
         | _ \<Rightarrow> ([], Failed TypeError, replies)))"
  by pat_completeness auto
termination
  by (relation "measure (\<lambda>(self, url, replies). length replies)")
    (auto dest!: each_ticket_suffix [OF sym])

declare ticket_pages.simps [simp del]

text \<open>
  All organizations, then all users, then the tickets with their comments. A phase that does
  not return ends the sequence.
\<close>

definition chunks_in_order ::
  "zendesk_source \<Rightarrow> reply list \<Rightarrow> chunk list \<times> outcome \<times> reply list" where
  "chunks_in_order self replies =
     (case observed (generate_organization_chunks self replies) of
        (organization_chunks, Returned, rest) \<Rightarrow>
          followed_by organization_chunks
            (case observed (generate_user_chunks self rest) of
               (user_chunks, Returned, rest') \<Rightarrow>
                 followed_by user_chunks (ticket_pages self (PStr (first_url tickets)) rest')
             | ended \<Rightarrow> ended)
      | ended \<Rightarrow> ended)"

lemma ticket_pages_induct [consumes 0, case_names step]:
  assumes "\<And>self url replies.
     (\<And>u r rest records data cs rest'.
        url = PStr u \<Longrightarrow> u \<noteq> [] \<Longrightarrow> replies = r # rest \<Longrightarrow>
        snd (open_page tickets self u r) = Inr (records, data) \<Longrightarrow>
        each_ticket self records rest = (cs, Returned, rest') \<Longrightarrow>
        P self (dict_get data ''next_page'' PNone) rest') \<Longrightarrow> P self url replies"
  shows "P self url replies"
proof (induction self url replies rule: ticket_pages.induct)
  case (1 self url replies)
  show ?case
  proof (rule assms)
    fix u r rest records data cs rest'
    assume a: "url = PStr u" "u \<noteq> []" "replies = r # rest"
      "snd (open_page tickets self u r) = Inr (records, data)"
      "each_ticket self records rest = (cs, Returned, rest')"
    then have "\<not> \<not> truthy url" by simp
    from "1.IH" [OF this a(1) a(3) a(4), of records data cs "(Returned, rest')" Returned rest'] a(5)
    show "P self (dict_get data ''next_page'' PNone) rest'" by simp
  qed
qed

lemma ticket_pages_cases:
  "\<not> truthy url \<Longrightarrow> ticket_pages self url replies = ([], Returned, replies)"
  "u \<noteq> [] \<Longrightarrow> ticket_pages self (PStr u) [] = ([], Pending u, [])"
  "u \<noteq> [] \<Longrightarrow> snd (open_page tickets self u r) = Inl e \<Longrightarrow>
     ticket_pages self (PStr u) (r # rest) = ([], Failed e, rest)"
  "u \<noteq> [] \<Longrightarrow> snd (open_page tickets self u r) = Inr (records, data) \<Longrightarrow>
   each_ticket self records rest = (cs, Returned, rest') \<Longrightarrow>
     ticket_pages self (PStr u) (r # rest) =
       followed_by cs (ticket_pages self (dict_get data ''next_page'' PNone) rest')"
  "u \<noteq> [] \<Longrightarrow> snd (open_page tickets self u r) = Inr (records, data) \<Longrightarrow>
   each_ticket self records rest = (cs, out, rest') \<Longrightarrow> out \<noteq> Returned \<Longrightarrow>
     ticket_pages self (PStr u) (r # rest) = (cs, out, rest')"
  "truthy url \<Longrightarrow> \<forall>u. url \<noteq> PStr u \<Longrightarrow>
     ticket_pages self url replies = ([], Failed TypeError, replies)"
  by (auto simp: ticket_pages.simps [of self url replies]
      ticket_pages.simps [of self "PStr u" "[]"]
      ticket_pages.simps [of self "PStr u" "r # rest"]
      split: outcome.splits pyval.splits)

lemma observed_simps [simp]:
  "observed (es, x) = (chunks_of es, x)"
  "observed (prepend es run) = followed_by (chunks_of es) (observed run)"
  by (simp_all add: observed_def followed_by_def prepend_def)

lemma followed_by_simps [simp]:
  "followed_by cs (cs', x) = (cs @ cs', x)"
  "followed_by [] r = r"
  "followed_by cs (followed_by cs' r) = followed_by (cs @ cs') r"
  by (simp_all add: followed_by_def)

lemma tickets_and_comments_prepend:
  assumes "resume tickets self pos replies = prepend es (resume tickets self pos' replies')"
  shows "tickets_and_comments self pos replies =
    prepend es (tickets_and_comments self pos' replies')"
proof -
  obtain es' res rest where r: "resume tickets self pos' replies' = (es', res, rest)"
    by (cases "resume tickets self pos' replies'") auto
  with assms have r': "resume tickets self pos replies = (es @ es', res, rest)" by simp
  show ?thesis
    by (cases res)
      (simp_all add: tickets_and_comments.simps [of self pos replies]
        tickets_and_comments.simps [of self pos' replies'] r r' prepend_def
        split: prod.splits outcome.splits)
qed

text \<open>The ticket loop of the source inside a page, given what it does from the next page on.\<close>

lemma tickets_and_comments_in_page:
  assumes "\<And>cs rest'. each_ticket self records rest = (cs, Returned, rest') \<Longrightarrow>
      observed (tickets_and_comments self (Loop (dict_get data ''next_page'' PNone)) rest') =
        ticket_pages self (dict_get data ''next_page'' PNone) rest'"
  shows "observed (tickets_and_comments self (Items records data) rest) =
    (case each_ticket self records rest of
       (cs, Returned, rest') \<Rightarrow>
         followed_by cs (ticket_pages self (dict_get data ''next_page'' PNone) rest')
     | ended \<Rightarrow> ended)"
  using assms
proof (induction records arbitrary: rest)
  case Nil
  have "resume tickets self (Items [] data) rest =
      prepend [] (resume tickets self (Loop (dict_get data ''next_page'' PNone)) rest)"
    by (simp add: prepend_def)
  from tickets_and_comments_prepend [OF this] Nil [of "[]" rest] show ?case
    by (simp add: prepend_def)
next
  case (Cons r records)
  show ?case
  proof (cases "ticket_chunk r")
    case (Inl e)
    then have "resume tickets self (Items (r # records) data) rest = ([], Raised e, rest)"
      by (simp add: tickets_def)
    from tickets_and_comments_cases(4) [OF this] Inl show ?thesis by simp
  next
    case (Inr t)
    then have r: "resume tickets self (Items (r # records) data) rest =
        ([], Yielded t (Items records data), rest)"
      by (simp add: tickets_def)
    obtain es1 out1 rest1 where
      g: "generate_comment_chunks self (entity_id t) rest = (es1, out1, rest1)"
      by (cases "generate_comment_chunks self (entity_id t) rest") auto
    show ?thesis
    proof (cases "out1 = Returned")
      case True
      note g' = g [unfolded True]
      obtain cs2 out2 rest2 where e: "each_ticket self records rest1 = (cs2, out2, rest2)"
        by (cases "each_ticket self records rest1") auto
      have "observed (tickets_and_comments self (Items records data) rest1) =
        (case each_ticket self records rest1 of
           (cs, Returned, rest') \<Rightarrow>
             followed_by cs (ticket_pages self (dict_get data ''next_page'' PNone) rest')
         | ended \<Rightarrow> ended)"
      proof (rule Cons.IH)
        fix cs rest'
        assume "each_ticket self records rest1 = (cs, Returned, rest')"
        with Inr g' have "each_ticket self (r # records) rest =
            (t # chunks_of es1 @ cs, Returned, rest')"
          by simp
        then show "observed (tickets_and_comments self
              (Loop (dict_get data ''next_page'' PNone)) rest') =
            ticket_pages self (dict_get data ''next_page'' PNone) rest'"
          by (rule Cons.prems)
      qed
      with Inr g' e show ?thesis
        by (cases "out2 = Returned")
          (auto simp: tickets_and_comments_cases(1) [OF r g'] split: outcome.splits)
    next
      case False
      with Inr g show ?thesis
        by (auto simp: tickets_and_comments_cases(2) [OF r g False] split: outcome.splits)
    qed
  qed
qed

text \<open>The ticket loop of the source from the loop test on is the walk over the ticket pages.\<close>

lemma tickets_and_comments_pages:
  "observed (tickets_and_comments self (Loop url) replies) = ticket_pages self url replies"
proof (induction self url replies rule: ticket_pages_induct)
  case (step self url replies)
  show ?case
  proof (cases "truthy url")
    case False
    then have "resume tickets self (Loop url) replies = ([], Stopped, replies)" by simp
    from tickets_and_comments_cases(3) [OF this] False show ?thesis
      by (simp add: ticket_pages_cases)
  next
    case True
    show ?thesis
    proof (cases "\<exists>u. url = PStr u")
      case False
      with True have "resume tickets self (Loop url) replies = ([], Raised TypeError, replies)"
        by (cases url) auto
      from tickets_and_comments_cases(4) [OF this] True False show ?thesis
        by (simp add: ticket_pages_cases)
    next
      case True
      then obtain u where u: "url = PStr u" by blast
      with \<open>truthy url\<close> have ne: "u \<noteq> []" by simp
      show ?thesis
      proof (cases replies)
        case Nil
        with u ne have "resume tickets self (Loop url) replies = ([], Awaiting u, [])" by simp
        from tickets_and_comments_cases(5) [OF this] u ne Nil show ?thesis
          by (simp add: ticket_pages_cases)
      next
        case (Cons r rest)
        show ?thesis
        proof (cases "snd (open_page tickets self u r)")
          case (Inl e)
          from resume_Loop_error [OF ne Inl] u Cons
          have "resume tickets self (Loop url) replies = ([request self u], Raised e, rest)"
            by simp
          from tickets_and_comments_cases(4) [OF this] u ne Cons Inl show ?thesis
            by (simp add: ticket_pages_cases request_def)
        next
          case (Inr p)
          obtain records data where p: "p = (records, data)" by (cases p) auto
          note o = Inr [unfolded p]
          from resume_Loop_page [OF ne o] u Cons
          have "resume tickets self (Loop url) replies =
              prepend [request self u] (resume tickets self (Items records data) rest)"
            by simp
          from tickets_and_comments_prepend [OF this]
          have "observed (tickets_and_comments self (Loop url) replies) =
              observed (tickets_and_comments self (Items records data) rest)"
            by (simp add: request_def)
          also have "\<dots> = (case each_ticket self records rest of
               (cs, Returned, rest') \<Rightarrow>
                 followed_by cs (ticket_pages self (dict_get data ''next_page'' PNone) rest')
             | ended \<Rightarrow> ended)"
            by (rule tickets_and_comments_in_page) (rule step [OF u ne Cons o])
          also have "\<dots> = ticket_pages self url replies"
          proof -
            obtain cs out rest' where e: "each_ticket self records rest = (cs, out, rest')"
              by (cases "each_ticket self records rest") auto
            show ?thesis
            proof (cases "out = Returned")
              case True
              with e u Cons ticket_pages_cases(4) [OF ne o e [unfolded True]] show ?thesis
                by simp
            next
              case False
              with e u Cons ticket_pages_cases(5) [OF ne o e False] show ?thesis
                by (auto split: outcome.splits)
            qed
          qed
          finally show ?thesis .
        qed
      qed
    qed
  qed
qed

lemma generate_chunks_in_order:
  "observed (generate_chunks self replies) = chunks_in_order self replies"
proof -
  obtain es1 out1 rest1 where o: "generate_organization_chunks self replies = (es1, out1, rest1)"
    by (cases "generate_organization_chunks self replies") auto
  obtain es2 out2 rest2 where u: "generate_user_chunks self rest1 = (es2, out2, rest2)"
    by (cases "generate_user_chunks self rest1") auto
  obtain es3 out3 rest3 where
    t: "tickets_and_comments self (start tickets) rest2 = (es3, out3, rest3)"
    by (cases "tickets_and_comments self (start tickets) rest2") auto
  from tickets_and_comments_pages [of self "PStr (first_url tickets)" rest2] t
  have p: "ticket_pages self (PStr (first_url tickets)) rest2 = (chunks_of es3, out3, rest3)"
    by (simp add: start_def)
  show ?thesis
  proof (cases "out1 = Returned")
    case False
    with o show ?thesis
      by (cases out1) (simp_all add: generate_chunks_cases(1) chunks_in_order_def)
  next
    case True
    note o' = o [unfolded True]
    show ?thesis
    proof (cases "out2 = Returned")
      case False
      with generate_chunks_cases(2) [OF o' u] o' u show ?thesis
        by (cases out2) (simp_all add: chunks_in_order_def)
    next
      case True
      note u' = u [unfolded True]
      from generate_chunks_cases(3) [OF o' u' t] o' u' p show ?thesis
        by (simp add: chunks_in_order_def)
    qed
  qed
qed

text \<open>
  The replies that answer the requests for ticket pages in such a walk, in order: what the
  ticket extractor gets when the comment pages between them are left out.
\<close>

function ticket_page_replies :: "zendesk_source \<Rightarrow> pyval \<Rightarrow> reply list \<Rightarrow> reply list" where
  "ticket_page_replies self url replies =
     (if \<not> truthy url then []
      else
        (case url of
           PStr u \<Rightarrow>
             (case replies of
                [] \<Rightarrow> []
              | r # rest \<Rightarrow>
                  r # (case snd (open_page tickets self u r) of
                         Inl e \<Rightarrow> []
                       | Inr (records, data) \<Rightarrow>
                           (case each_ticket self records rest of
                              (cs, Returned, rest') \<Rightarrow>
                                ticket_page_replies self (dict_get data ''next_page'' PNone) rest'
                            | ended \<Rightarrow> [])))
         | _ \<Rightarrow> []))"
  by pat_completeness auto
termination
  by (relation "measure (\<lambda>(self, url, replies). length replies)")
    (auto dest!: each_ticket_suffix [OF sym])

declare ticket_page_replies.simps [simp del]

lemma ticket_page_replies_cases:
  "\<not> truthy url \<Longrightarrow> ticket_page_replies self url replies = []"
  "ticket_page_replies self (PStr u) [] = []"
  "u \<noteq> [] \<Longrightarrow> snd (open_page tickets self u r) = Inl e \<Longrightarrow>
     ticket_page_replies self (PStr u) (r # rest) = [r]"
  "u \<noteq> [] \<Longrightarrow> snd (open_page tickets self u r) = Inr (records, data) \<Longrightarrow>
   each_ticket self records rest = (cs, Returned, rest') \<Longrightarrow>
     ticket_page_replies self (PStr u) (r # rest) =
       r # ticket_page_replies self (dict_get data ''next_page'' PNone) rest'"
  "u \<noteq> [] \<Longrightarrow> snd (open_page tickets self u r) = Inr (records, data) \<Longrightarrow>
   each_ticket self records rest = (cs, out, rest') \<Longrightarrow> out \<noteq> Returned \<Longrightarrow>
     ticket_page_replies self (PStr u) (r # rest) = [r]"
  "truthy url \<Longrightarrow> \<forall>u. url \<noteq> PStr u \<Longrightarrow> ticket_page_replies self url replies = []"
  by (auto simp: ticket_page_replies.simps [of self url replies]
      ticket_page_replies.simps [of self "PStr u" "[]"]
      ticket_page_replies.simps [of self "PStr u" "r # rest"]
      split: outcome.splits pyval.splits)

abbreviation is_ticket :: "chunk \<Rightarrow> bool" where
  "is_ticket c \<equiv> cls c = ZendeskTicketChunk"

lemma comments_no_ticket:
  "filter is_ticket (chunks_of (fst (generate_comment_chunks self ticket_id replies))) = []"
  by (auto simp: filter_empty_conv dest!: comments_chunks dest: comment_chunk_made(1))

lemma drain_item:
  "make_chunk ex r = Inr c \<Longrightarrow>
     drain ex self (Items (r # records) data) replies =
       prepend [Yield c] (drain ex self (Items records data) replies)"
  "make_chunk ex r = Inl e \<Longrightarrow>
     drain ex self (Items (r # records) data) replies = ([], Failed e, replies)"
  by (simp_all add: drain_cases)

lemma drain_no_items:
  "drain ex self (Items [] data) replies =
     drain ex self (Loop (dict_get data ''next_page'' PNone)) replies"
proof -
  have "resume ex self (Items [] data) replies =
      prepend [] (resume ex self (Loop (dict_get data ''next_page'' PNone)) replies)"
    by (simp add: prepend_def)
  from drain_prepend [OF this] show ?thesis by (simp add: prepend_def)
qed

text \<open>
  Inside a page: the ticket chunks of \<open>each_ticket\<close> are the chunks the ticket extractor
  yields from the records of the page, all of them when \<open>each_ticket\<close> returns.
\<close>

lemma each_ticket_tickets:
  assumes "each_ticket self records rest = (cs, out, rest')"
  shows "(out = Returned \<longrightarrow>
      drain tickets self (Items records data) later_pages =
        prepend (map Yield (filter is_ticket cs))
          (drain tickets self (Loop (dict_get data ''next_page'' PNone)) later_pages)) \<and>
    (\<exists>later. chunks_of (fst (drain tickets self (Items records data) [])) =
       filter is_ticket cs @ later)"
  using assms
proof (induction records arbitrary: rest cs out rest')
  case Nil
  then show ?case by (simp add: drain_no_items prepend_def)
next
  case (Cons r records)
  show ?case
  proof (cases "ticket_chunk r")
    case (Inl e)
    with Cons.prems show ?thesis by auto
  next
    case (Inr t)
    then have m: "make_chunk tickets r = Inr t" by (simp add: tickets_def)
    from Inr have t: "is_ticket t" by (rule ticket_chunk_made(1))
    obtain es1 out1 rest1 where
      g: "generate_comment_chunks self (entity_id t) rest = (es1, out1, rest1)"
      by (cases "generate_comment_chunks self (entity_id t) rest") auto
    from comments_no_ticket [of self "entity_id t" rest] g
    have nt: "filter is_ticket (chunks_of es1) = []" by simp
    show ?thesis
    proof (cases "out1 = Returned")
      case True
      obtain cs2 out2 rest2 where e: "each_ticket self records rest1 = (cs2, out2, rest2)"
        by (cases "each_ticket self records rest1") auto
      with Cons.prems Inr g True have eq: "cs = t # chunks_of es1 @ cs2" "out = out2"
        by simp_all
      from Cons.IH [OF e] eq t nt show ?thesis
        by (auto simp: drain_item(1) [OF m] prepend_def)
    next
      case False
      with Cons.prems Inr g have eq: "cs = t # chunks_of es1" "out = out1"
        by (cases out1; simp)+
      with False t nt show ?thesis
        by (simp add: drain_item(1) [OF m])
    qed
  qed
qed

text \<open>
  The tickets of the walk are in the order of the ticket extractor: run alone on the
  replies to the ticket requests it yields the ticket chunks of the walk, in the same
  order, and when the walk returns it yields no other chunk and returns too.
\<close>

lemma ticket_pages_fetch_order:
  "\<exists>later.
     chunks_of (fst (drain tickets self (Loop url) (ticket_page_replies self url replies))) =
       filter is_ticket (fst (ticket_pages self url replies)) @ later \<and>
     (fst (snd (ticket_pages self url replies)) = Returned \<longrightarrow>
        later = [] \<and>
        snd (drain tickets self (Loop url) (ticket_page_replies self url replies)) =
          (Returned, []))"
proof (induction self url replies rule: ticket_pages_induct)
  case (step self url replies)
  show ?case
  proof (cases "truthy url")
    case False
    then show ?thesis
      by (simp add: ticket_pages_cases ticket_page_replies_cases drain_stop)
  next
    case True
    show ?thesis
    proof (cases "\<exists>u. url = PStr u")
      case False
      with True have "resume tickets self (Loop url) [] = ([], Raised TypeError, [])"
        by (cases url) auto
      from drain_cases(3) [OF this] True False show ?thesis
        by (simp add: ticket_pages_cases ticket_page_replies_cases)
    next
      case True
      then obtain u where u: "url = PStr u" by blast
      with \<open>truthy url\<close> have ne: "u \<noteq> []" by simp
      show ?thesis
      proof (cases replies)
        case Nil
        from ne have "resume tickets self (Loop (PStr u)) [] = ([], Awaiting u, [])" by simp
        from drain_cases(4) [OF this] u ne Nil show ?thesis
          by (simp add: ticket_pages_cases ticket_page_replies_cases)
      next
        case (Cons r rest)
        show ?thesis
        proof (cases "snd (open_page tickets self u r)")
          case (Inl e)
          from drain_cases(3) [OF resume_Loop_error [OF ne Inl, of "[]"]] u Cons ne Inl
          show ?thesis
            by (simp add: ticket_pages_cases ticket_page_replies_cases request_def)
        next
          case (Inr p)
          obtain records data where p: "p = (records, data)" by (cases p) auto
          note o = Inr [unfolded p]
          obtain cs out rest' where e: "each_ticket self records rest = (cs, out, rest')"
            by (cases "each_ticket self records rest") auto
          have d: "drain tickets self (Loop (PStr u)) (r # later_pages) =
              prepend [request self u] (drain tickets self (Items records data) later_pages)"
            for later_pages
            by (rule drain_prepend) (rule resume_Loop_page [OF ne o])
          show ?thesis
          proof (cases "out = Returned")
            case True
            note e' = e [unfolded True]
            let ?next = "dict_get data ''next_page'' PNone"
            from step [OF u ne Cons o e'] obtain later where
              l: "chunks_of (fst (drain tickets self (Loop ?next)
                    (ticket_page_replies self ?next rest'))) =
                  filter is_ticket (fst (ticket_pages self ?next rest')) @ later"
                "fst (snd (ticket_pages self ?next rest')) = Returned \<longrightarrow>
                  later = [] \<and>
                  snd (drain tickets self (Loop ?next) (ticket_page_replies self ?next rest')) =
                    (Returned, [])"
              by blast
            from each_ticket_tickets [OF e', of data "ticket_page_replies self ?next rest'"]
            have i: "drain tickets self (Items records data)
                  (ticket_page_replies self ?next rest') =
                prepend (map Yield (filter is_ticket cs))
                  (drain tickets self (Loop ?next) (ticket_page_replies self ?next rest'))"
              by simp
            have y: "chunks_of (map Yield xs) = xs" for xs by (induction xs) simp_all
            from l show ?thesis
              unfolding u Cons ticket_pages_cases(4) [OF ne o e']
                ticket_page_replies_cases(4) [OF ne o e'] d i
              by (intro exI [of _ later]) (simp add: request_def y followed_by_def)
          next
            case False
            from each_ticket_tickets [OF e, of data] obtain later where
              "chunks_of (fst (drain tickets self (Items records data) [])) =
                 filter is_ticket cs @ later"
              by blast
            with False show ?thesis
              unfolding u Cons ticket_pages_cases(5) [OF ne o e False]
                ticket_page_replies_cases(5) [OF ne o e False] d
              by (intro exI [of _ later]) (simp add: request_def)
          qed
        qed
      qed
    qed
  qed
qed

text \<open>
  Claim C2: the chunks of \<^verbatim>\<open>generate_chunks\<close> come in exactly the order of the
  specification, for every sequence of replies: what is observed of the run of the source
  is \<open>chunks_in_order\<close>, that is all chunks of the organization extractor, then all chunks
  of the user extractor, then, ticket page by ticket page and record by record, each
  ticket chunk followed at once by all chunks of the comment extractor for that ticket
  (run on the replies that follow at that point), before the next ticket. The chunks of
  the three extractors and the ticket chunks have the classes of their kinds. The tickets
  are in fetch order: the ticket extractor of the source, run alone on the replies to the
  ticket requests, yields the ticket chunks of the walk in the same order, and when the
  walk returns it yields exactly these and returns.
\<close>

theorem generate_chunks_order:
  "observed (generate_chunks self replies) = chunks_in_order self replies \<and>
   list_all (\<lambda>c. cls c = ZendeskOrganizationChunk)
     (chunks_of (fst (generate_organization_chunks self rs))) \<and>
   list_all (\<lambda>c. cls c = ZendeskUserChunk) (chunks_of (fst (generate_user_chunks self rs))) \<and>
   list_all (\<lambda>c. cls c = ZendeskCommentChunk)
     (chunks_of (fst (generate_comment_chunks self ticket_id rs))) \<and>
   (ticket_chunk r = Inr t \<longrightarrow> cls t = ZendeskTicketChunk) \<and>
   (\<exists>later.
      chunks_of (fst (generate_ticket_chunks self
          (ticket_page_replies self (PStr (first_url tickets)) rs))) =
        filter is_ticket (fst (ticket_pages self (PStr (first_url tickets)) rs)) @ later \<and>
      (fst (snd (ticket_pages self (PStr (first_url tickets)) rs)) = Returned \<longrightarrow>
         later = [] \<and>
         snd (generate_ticket_chunks self
           (ticket_page_replies self (PStr (first_url tickets)) rs)) = (Returned, [])))"
proof (intro conjI)
  show "observed (generate_chunks self replies) = chunks_in_order self replies"
    by (rule generate_chunks_in_order)
  show "list_all (\<lambda>c. cls c = ZendeskOrganizationChunk)
     (chunks_of (fst (generate_organization_chunks self rs)))"
    unfolding list_all_iff by (blast dest: organizations_chunks organization_chunk_made(1))
  show "list_all (\<lambda>c. cls c = ZendeskUserChunk) (chunks_of (fst (generate_user_chunks self rs)))"
    unfolding list_all_iff by (blast dest: users_chunks user_chunk_made(1))
  show "list_all (\<lambda>c. cls c = ZendeskCommentChunk)
     (chunks_of (fst (generate_comment_chunks self ticket_id rs)))"
    unfolding list_all_iff by (blast dest: comments_chunks comment_chunk_made(1))
  show "ticket_chunk r = Inr t \<longrightarrow> cls t = ZendeskTicketChunk"
    by (blast dest: ticket_chunk_made(1))
  from ticket_pages_fetch_order [of self "PStr (first_url tickets)" rs]
  show "\<exists>later.
      chunks_of (fst (generate_ticket_chunks self
          (ticket_page_replies self (PStr (first_url tickets)) rs))) =
        filter is_ticket (fst (ticket_pages self (PStr (first_url tickets)) rs)) @ later \<and>
      (fst (snd (ticket_pages self (PStr (first_url tickets)) rs)) = Returned \<longrightarrow>
         later = [] \<and>
         snd (generate_ticket_chunks self
           (ticket_page_replies self (PStr (first_url tickets)) rs)) = (Returned, []))"
    by (simp add: generate_ticket_chunks_def start_def)
qed

theorem generate_chunks_order_witness:
  "observed (generate_chunks (create ''token'') sample_replies) =
     chunks_in_order (create ''token'') sample_replies \<and>
   map (\<lambda>c. (cls c, entity_id c)) (fst (chunks_in_order (create ''token'') sample_replies)) =
     [(ZendeskOrganizationChunk, ''1''), (ZendeskOrganizationChunk, ''2''),
      (ZendeskUserChunk, ''3''),
      (ZendeskTicketChunk, ''42''), (ZendeskCommentChunk, ''7''), (ZendeskCommentChunk, ''8''),
      (ZendeskCommentChunk, ''9''), (ZendeskTicketChunk, ''43'')] \<and>
   snd (chunks_in_order (create ''token'') sample_replies) = (Returned, []) \<and>
   map entity_id (chunks_of (fst (generate_ticket_chunks (create ''token'')
       (ticket_page_replies (create ''token'') (PStr (first_url tickets))
          (drop 3 sample_replies))))) = [''42'', ''43'']"
proof (intro conjI)
  show "observed (generate_chunks (create ''token'') sample_replies) =
     chunks_in_order (create ''token'') sample_replies"
    using generate_chunks_order [of "create ''token''" sample_replies] by blast
qed code_simp+

end
